theory Spec2Isabelle
  imports Main
begin

section \<open>The output-chain engine \<open>ngx_freebsd_sendfile_chain\<close>\<close>

text \<open>
  A shallow embedding of \<open>src/os/unix/ngx_freebsd_sendfile_chain.c\<close>.

  \<^item> A chain \<open>ngx_chain_t *\<close> is a NULL-terminated singly linked list; a pointer into it
    is the list of hunks from that node on, \<open>[]\<close> being NULL. Every pointer the function
    compares (\<open>tail == in\<close>) is a suffix of the same chain, so two of them are the same
    node exactly when the suffixes have the same length.
  \<^item> Each chain link owns its hunk (no two links share one).
  \<^item> Addresses, file offsets and byte counts are unbounded integers: the widths of
    \<open>ssize_t\<close>, \<open>size_t\<close> and \<open>off_t\<close> are not modelled.
  \<^item> The operating system is an input: one \<open>os_reply\<close> for each pass through the
    \<open>do ... while\<close> body.
\<close>

subsection \<open>Data\<close>

text \<open>
  \<open>ngx_hunk_t\<close>: the two type bits the function tests (\<open>type & NGX_HUNK_IN_MEMORY\<close>,
  \<open>type & NGX_HUNK_FILE\<close>), the memory cursor and limit \<open>pos\<close>, \<open>last\<close>, the file cursor
  and limit \<open>file_pos\<close>, \<open>file_last\<close>, and \<open>file->fd\<close>.
\<close>

record ngx_hunk_t =
  in_memory :: bool
  in_file :: bool
  h_pos :: int
  h_last :: int
  file_pos :: int
  file_last :: int
  file_fd :: int

record iovec =
  iov_base :: int
  iov_len :: int

text \<open>The fields of \<open>ngx_connection_t\<close> the function uses: \<open>c->write->ready\<close>,
  \<open>c->tcp_nopush\<close>, \<open>c->sent\<close> and the socket \<open>c->fd\<close>.\<close>

record ngx_connection_t =
  write_ready :: bool
  tcp_nopush :: bool
  sent :: int
  c_fd :: int

text \<open>The two globals of \<open>ngx_freebsd_init.h\<close>, taken as parameters.\<close>

record config =
  ngx_freebsd_use_tcp_nopush :: int
  ngx_freebsd_sendfile_nbytes_bug :: int

datatype ngx_err_t = NGX_EINTR | NGX_EAGAIN | Other_errno nat

text \<open>
  What the environment answers during one pass through the loop body:
  whether an \<open>ngx_init_array\<close> or \<open>ngx_push_array\<close> of this pass returned NULL,
  whether \<open>ngx_tcp_nopush\<close> (if it is called) returned \<open>NGX_ERROR\<close>,
  the return value \<open>rc\<close> of \<open>sendfile\<close> or \<open>writev\<close>, the byte count \<open>sendfile\<close> stored
  through its \<open>&sent\<close> argument, and \<open>errno\<close>.
\<close>

record os_reply =
  alloc_failed :: bool
  nopush_failed :: bool
  rc :: int
  sbytes :: int
  err :: ngx_err_t

datatype syscall =
    Tcp_nopush int
  | Sendfile int int int int "iovec list" "iovec list"
  | Writev int "iovec list"

text \<open>The value returned: \<open>NGX_CHAIN_ERROR\<close> or a chain pointer.\<close>

datatype ngx_chain_ret = NGX_CHAIN_ERROR | Chain "ngx_hunk_t list"

text \<open>
  The state the loop works on: the connection, the links already behind \<open>in\<close> (with their
  hunks as the completion pass left them), \<open>in\<close> itself, and the system calls made so far.
\<close>

record state =
  conn :: ngx_connection_t
  passed :: "ngx_hunk_t list"
  chain_in :: "ngx_hunk_t list"
  calls :: "syscall list"

datatype step = Chain_error state | Leave state | Again state

subsection \<open>The hunk macros\<close>

text \<open>Modelled from the spec: the macro \<open>ngx_hunk_special\<close> (of \<open>ngx_hunk.h\<close>, not among
  the sources). A special span is a marker that carries no transmissible bytes: it is neither
  a memory span nor a file span.\<close>

definition ngx_hunk_special :: "ngx_hunk_t \<Rightarrow> bool" where
  "ngx_hunk_special h = (\<not> in_memory h \<and> \<not> in_file h)"

text \<open>Modelled from the spec: the macro \<open>ngx_hunk_in_memory_only\<close> (of \<open>ngx_hunk.h\<close>, not
  among the sources). A memory span: in memory and not a file region.\<close>

definition ngx_hunk_in_memory_only :: "ngx_hunk_t \<Rightarrow> bool" where
  "ngx_hunk_in_memory_only h = (in_memory h \<and> \<not> in_file h)"

text \<open>Modelled from the spec: the macro \<open>ngx_hunk_size\<close> (of \<open>ngx_hunk.h\<close>, not among the
  sources). The remaining size is \<open>last - pos\<close> for a span in memory and
  \<open>file_last - file_pos\<close> otherwise.\<close>

definition ngx_hunk_size :: "ngx_hunk_t \<Rightarrow> int" where
  "ngx_hunk_size h = (if in_memory h then h_last h - h_pos h else file_last h - file_pos h)"

subsection \<open>Coalescing (lines 56-136)\<close>

text \<open>\<open>iov->iov_len += n\<close>, where \<open>iov\<close> points at the element pushed last. The pointer is
  NULL only while nothing has been pushed, and then \<open>prev\<close> is NULL too and the statement
  is not reached.\<close>

fun iov_grow :: "int \<Rightarrow> iovec list \<Rightarrow> iovec list" where
  "iov_grow n [] = []"
| "iov_grow n [v] = [v\<lparr>iov_len := iov_len v + n\<rparr>]"
| "iov_grow n (v # w # vs) = v # iov_grow n (w # vs)"

definition iov_of :: "ngx_hunk_t \<Rightarrow> iovec" where
  "iov_of h = \<lparr>iov_base = h_pos h, iov_len = h_last h - h_pos h\<rparr>"

text \<open>The first \<open>for\<close> loop (lines 59-80). \<open>prev\<close> is \<open>None\<close> for NULL; the result is the
  header array, \<open>hsize\<close> and the link \<open>ce\<close> the loop stopped at.\<close>

fun header_scan ::
  "int option \<Rightarrow> iovec list \<Rightarrow> int \<Rightarrow> ngx_hunk_t list \<Rightarrow> iovec list \<times> int \<times> ngx_hunk_t list"
where
  "header_scan prev header hsize [] = (header, hsize, [])"
| "header_scan prev header hsize (h # ce) =
     (if ngx_hunk_special h then header_scan prev header hsize ce
      else if \<not> ngx_hunk_in_memory_only h then (header, hsize, h # ce)
      else if prev = Some (h_pos h) then
        header_scan (Some (h_last h)) (iov_grow (h_last h - h_pos h) header)
          (hsize + (h_last h - h_pos h)) ce
      else
        header_scan (Some (h_last h)) (header @ [iov_of h])
          (hsize + (h_last h - h_pos h)) ce)"

text \<open>The \<open>while\<close> loop over the neighbouring file hunks (lines 92-102): \<open>fd\<close> is
  \<open>file->file->fd\<close>; the result is \<open>fsize\<close> and the link the loop stopped at.\<close>

fun file_coalesce :: "int \<Rightarrow> int \<Rightarrow> int \<Rightarrow> ngx_hunk_t list \<Rightarrow> int \<times> ngx_hunk_t list" where
  "file_coalesce fd fprev fsize [] = (fsize, [])"
| "file_coalesce fd fprev fsize (h # ce) =
     (if in_file h then
        (if fd \<noteq> file_fd h \<or> fprev \<noteq> file_pos h then (fsize, h # ce)
         else file_coalesce fd (file_last h) (fsize + (file_last h - file_pos h)) ce)
      else (fsize, h # ce))"

text \<open>Lines 84-103: the file hunk, if \<open>ce\<close> is one, and its neighbours.\<close>

definition get_file :: "ngx_hunk_t list \<Rightarrow> ngx_hunk_t option \<times> int \<times> ngx_hunk_t list" where
  "get_file ce =
     (case ce of
        [] \<Rightarrow> (None, 0, [])
      | h # nxt \<Rightarrow>
          if in_file h then
            (case file_coalesce (file_fd h) (file_last h) (file_last h - file_pos h) nxt of
               (fsize, ce') \<Rightarrow> (Some h, fsize, ce'))
          else (None, 0, h # nxt))"

text \<open>The second \<open>for\<close> loop (lines 110-129), which fills the trailer array.\<close>

fun trailer_scan ::
  "int option \<Rightarrow> iovec list \<Rightarrow> ngx_hunk_t list \<Rightarrow> iovec list \<times> ngx_hunk_t list"
where
  "trailer_scan prev trailer [] = (trailer, [])"
| "trailer_scan prev trailer (h # ce) =
     (if ngx_hunk_special h then trailer_scan prev trailer ce
      else if \<not> ngx_hunk_in_memory_only h then (trailer, h # ce)
      else if prev = Some (h_pos h) then
        trailer_scan (Some (h_last h)) (iov_grow (h_last h - h_pos h) trailer) ce
      else
        trailer_scan (Some (h_last h)) (trailer @ [iov_of h]) ce)"

record coalesced =
  header :: "iovec list"
  hsize :: int
  file_hunk :: "ngx_hunk_t option"
  fsize :: int
  trailer :: "iovec list"
  tail :: "ngx_hunk_t list"

text \<open>Lines 42-136 as one function of \<open>in\<close>.\<close>

definition coalesce :: "ngx_hunk_t list \<Rightarrow> coalesced" where
  "coalesce chain =
     (case header_scan None [] 0 chain of
        (hv, hs, ce) \<Rightarrow>
          (case get_file ce of
             (f, fs, ce') \<Rightarrow>
               (case trailer_scan None [] ce' of
                  (tv, ce'') \<Rightarrow>
                    \<lparr>header = hv, hsize = hs, file_hunk = f, fsize = fs,
                     trailer = tv, tail = ce''\<rparr>)))"

subsection \<open>The completion pass (lines 223-260)\<close>

text \<open>Lines 238-244: the hunk is sent whole.\<close>

definition consume :: "ngx_hunk_t \<Rightarrow> ngx_hunk_t" where
  "consume h =
     (let h1 = (if in_memory h then h\<lparr>h_pos := h_last h\<rparr> else h)
      in (if in_file h1 then h1\<lparr>file_pos := file_last h1\<rparr> else h1))"

text \<open>Lines 249-255: the hunk is sent in part.\<close>

definition advance :: "int \<Rightarrow> ngx_hunk_t \<Rightarrow> ngx_hunk_t" where
  "advance n h =
     (let h1 = (if in_memory h then h\<lparr>h_pos := h_pos h + n\<rparr> else h)
      in (if in_file h1 then h1\<lparr>file_pos := file_pos h1 + n\<rparr> else h1))"

text \<open>The loop: the links it went past, with their hunks updated, and the link it stopped
  at, which becomes \<open>in\<close>.\<close>

fun completion :: "int \<Rightarrow> ngx_hunk_t list \<Rightarrow> ngx_hunk_t list \<times> ngx_hunk_t list" where
  "completion n [] = ([], [])"
| "completion n (h # ce) =
     (if ngx_hunk_special h then
        (case completion n ce of (d, r) \<Rightarrow> (h # d, r))
      else if n = 0 then ([], h # ce)
      else if n \<ge> ngx_hunk_size h then
        (case completion (n - ngx_hunk_size h) ce of (d, r) \<Rightarrow> (consume h # d, r))
      else ([], advance n h # ce))"

subsection \<open>The loop body and the function\<close>

text \<open>Lines 221-274, after a transmission attempt that was not fatal: \<open>c->sent += sent\<close>,
  the completion pass, \<open>in = ce\<close>, and the decision to leave the loop or go round again.\<close>

definition complete :: "ngx_hunk_t list \<Rightarrow> int \<Rightarrow> bool \<Rightarrow> bool \<Rightarrow> state \<Rightarrow> step" where
  "complete tp n eintr eagain s =
     (case completion n (chain_in s) of
        (d, r) \<Rightarrow>
          (let s' = s\<lparr>conn := (conn s)\<lparr>sent := sent (conn s) + n\<rparr>,
                       passed := passed s @ d,
                       chain_in := r\<rparr>
           in if eagain then Leave (s'\<lparr>conn := (conn s')\<lparr>write_ready := False\<rparr>\<rparr>)
              else if (tp \<noteq> [] \<and> length tp = length r) \<or> eintr then Again s'
              else Leave s'))"

text \<open>One pass through the \<open>do ... while\<close> body (lines 42-274).\<close>

definition iteration :: "config \<Rightarrow> os_reply \<Rightarrow> state \<Rightarrow> step" where
  "iteration cfg r s =
     (if alloc_failed r then Chain_error s
      else
        let co = coalesce (chain_in s); c = conn s in
        (case file_hunk co of
           Some f \<Rightarrow>
             (let nopush = (ngx_freebsd_use_tcp_nopush cfg \<noteq> 0 \<and> \<not> tcp_nopush c);
                  c1 = (if nopush then c\<lparr>tcp_nopush := True\<rparr> else c);
                  calls1 = (if nopush then calls s @ [Tcp_nopush (c_fd c)] else calls s)
              in if nopush \<and> nopush_failed r then Chain_error (s\<lparr>conn := c1, calls := calls1\<rparr>)
                 else
                   let hsize' = (if ngx_freebsd_sendfile_nbytes_bug cfg = 0 then 0 else hsize co);
                       s2 = s\<lparr>conn := c1,
                              calls := calls1 @
                                [Sendfile (file_fd f) (c_fd c) (file_pos f) (fsize co + hsize')
                                   (header co) (trailer co)]\<rparr>
                   in if rc r = - 1 \<and> err r \<noteq> NGX_EAGAIN \<and> err r \<noteq> NGX_EINTR
                      then Chain_error s2
                      else complete (tail co) (sbytes r)
                             (rc r = - 1 \<and> err r = NGX_EINTR) (rc r = - 1 \<and> err r = NGX_EAGAIN) s2)
         | None \<Rightarrow>
             (let s2 = s\<lparr>calls := calls s @ [Writev (c_fd c) (header co)]\<rparr>
              in if rc r = - 1 \<and> err r \<noteq> NGX_EAGAIN \<and> err r \<noteq> NGX_EINTR
                 then Chain_error s2
                 else complete (tail co) (if rc r > 0 then rc r else 0)
                        (rc r = - 1 \<and> err r = NGX_EINTR) False s2)))"

text \<open>Lines 276-280: \<open>if (in) c->write->ready = 0; return in\<close>.\<close>

definition finish :: "state \<Rightarrow> ngx_chain_ret \<times> state" where
  "finish s =
     (if chain_in s \<noteq> [] then (Chain (chain_in s), s\<lparr>conn := (conn s)\<lparr>write_ready := False\<rparr>\<rparr>)
      else (Chain (chain_in s), s))"

text \<open>The \<open>do ... while\<close> loop, one reply of the environment for each pass. \<open>None\<close>: the
  replies ran out and the loop has not returned.\<close>

fun ngx_loop :: "config \<Rightarrow> os_reply list \<Rightarrow> state \<Rightarrow> (ngx_chain_ret \<times> state) option" where
  "ngx_loop cfg [] s = None"
| "ngx_loop cfg (r # rs) s =
     (case iteration cfg r s of
        Chain_error s' \<Rightarrow> Some (NGX_CHAIN_ERROR, s')
      | Leave s' \<Rightarrow> Some (finish s')
      | Again s' \<Rightarrow> ngx_loop cfg rs s')"

definition ngx_freebsd_sendfile_chain ::
  "config \<Rightarrow> os_reply list \<Rightarrow> ngx_connection_t \<Rightarrow> ngx_hunk_t list \<Rightarrow>
     (ngx_chain_ret \<times> state) option"
where
  "ngx_freebsd_sendfile_chain cfg rs c chain =
     (let s = \<lparr>conn = c, passed = [], chain_in = chain, calls = []\<rparr>
      in if \<not> write_ready c then Some (Chain chain, s) else ngx_loop cfg rs s)"

subsection \<open>Auxiliary notions and example inputs\<close>

text \<open>The bytes the completion pass has taken off its counter when it has gone past the
  links \<open>xs\<close>: the sizes of those that are not special.\<close>

definition sent_before :: "ngx_hunk_t list \<Rightarrow> int" where
  "sent_before xs = sum_list (map ngx_hunk_size (filter (\<lambda>h. \<not> ngx_hunk_special h) xs))"

text \<open>A memory span \<open>[a, b)\<close>, a file span \<open>[a, b)\<close> of the file \<open>d\<close>, a special span.\<close>

definition memory_span :: "int \<Rightarrow> int \<Rightarrow> ngx_hunk_t" where
  "memory_span a b =
     \<lparr>in_memory = True, in_file = False, h_pos = a, h_last = b,
      file_pos = 0, file_last = 0, file_fd = 0\<rparr>"

definition file_span :: "int \<Rightarrow> int \<Rightarrow> int \<Rightarrow> ngx_hunk_t" where
  "file_span d a b =
     \<lparr>in_memory = False, in_file = True, h_pos = 0, h_last = 0,
      file_pos = a, file_last = b, file_fd = d\<rparr>"

definition special_span :: ngx_hunk_t where
  "special_span =
     \<lparr>in_memory = False, in_file = False, h_pos = 0, h_last = 0,
      file_pos = 0, file_last = 0, file_fd = 0\<rparr>"

text \<open>A connection that is ready for writing, on socket 5.\<close>

definition ready_conn :: ngx_connection_t where
  "ready_conn = \<lparr>write_ready = True, tcp_nopush = False, sent = 0, c_fd = 5\<rparr>"

text \<open>The settings of a FreeBSD without the \<open>nbytes\<close> bug, \<open>TCP_NOPUSH\<close> in use.\<close>

definition plain_config :: config where
  "plain_config = \<lparr>ngx_freebsd_use_tcp_nopush = 1, ngx_freebsd_sendfile_nbytes_bug = 0\<rparr>"

text \<open>A system call that succeeds (\<open>rc\<close> is 0 and \<open>n\<close> bytes are reported), and one that
  fails with \<open>errno = e\<close> after reporting \<open>n\<close> bytes.\<close>

definition reply_ok :: "int \<Rightarrow> os_reply" where
  "reply_ok n =
     \<lparr>alloc_failed = False, nopush_failed = False, rc = 0, sbytes = n, err = Other_errno 0\<rparr>"

definition reply_err :: "ngx_err_t \<Rightarrow> int \<Rightarrow> os_reply" where
  "reply_err e n =
     \<lparr>alloc_failed = False, nopush_failed = False, rc = - 1, sbytes = n, err = e\<rparr>"

text \<open>The spans a header or trailer scan collects from a chain: those before the first
  link that is neither special nor memory-only, the special ones left out. And the link the
  scan stops at.\<close>

definition scanned :: "ngx_hunk_t list \<Rightarrow> ngx_hunk_t list" where
  "scanned chain =
     filter (\<lambda>h. \<not> ngx_hunk_special h)
       (takeWhile (\<lambda>h. ngx_hunk_special h \<or> ngx_hunk_in_memory_only h) chain)"

definition unscanned :: "ngx_hunk_t list \<Rightarrow> ngx_hunk_t list" where
  "unscanned chain = dropWhile (\<lambda>h. ngx_hunk_special h \<or> ngx_hunk_in_memory_only h) chain"

text \<open>
  The grouping of memory spans as the specification words it: a new vector entry is started
  unless the span's start address is exactly the previous span's end. \<open>runs_from cur xs\<close>
  has the run \<open>cur\<close> open; each run becomes one vector entry, from the start of its first
  span and as long as its spans together.
\<close>

fun runs_from :: "ngx_hunk_t list \<Rightarrow> ngx_hunk_t list \<Rightarrow> ngx_hunk_t list list" where
  "runs_from cur [] = [cur]"
| "runs_from cur (b # xs) =
     (if h_last (last cur) = h_pos b then runs_from (cur @ [b]) xs
      else cur # runs_from [b] xs)"

fun adjacent_runs :: "ngx_hunk_t list \<Rightarrow> ngx_hunk_t list list" where
  "adjacent_runs [] = []"
| "adjacent_runs (a # xs) = runs_from [a] xs"

definition run_iov :: "ngx_hunk_t list \<Rightarrow> iovec" where
  "run_iov g = \<lparr>iov_base = h_pos (hd g), iov_len = sum_list (map (\<lambda>h. h_last h - h_pos h) g)\<rparr>"

text \<open>The state a pass through the loop body ends in.\<close>

fun state_of :: "step \<Rightarrow> state" where
  "state_of (Chain_error s) = s"
| "state_of (Leave s) = s"
| "state_of (Again s) = s"

text \<open>The byte count the completion pass is run with: what \<open>sendfile\<close> stored in \<open>sent\<close>
  (line 166), or \<open>rc > 0 ? rc : 0\<close> after \<open>writev\<close> (line 214).\<close>

definition attempt_sent :: "os_reply \<Rightarrow> state \<Rightarrow> int" where
  "attempt_sent r s =
     (case file_hunk (coalesce (chain_in s)) of
        Some f \<Rightarrow> sbytes r
      | None \<Rightarrow> if rc r > 0 then rc r else 0)"

text \<open>The system call failed with an \<open>errno\<close> other than \<open>EAGAIN\<close> and \<open>EINTR\<close> (lines 184-188,
  208-211).\<close>

definition fatal :: "os_reply \<Rightarrow> bool" where
  "fatal r = (rc r = - 1 \<and> err r \<noteq> NGX_EAGAIN \<and> err r \<noteq> NGX_EINTR)"

text \<open>The test of line 140: \<open>ngx_tcp_nopush\<close> is called in this pass if a file hunk is found.\<close>

definition nopush_now :: "config \<Rightarrow> state \<Rightarrow> bool" where
  "nopush_now cfg s = (ngx_freebsd_use_tcp_nopush cfg \<noteq> 0 \<and> \<not> tcp_nopush (conn s))"

text \<open>The \<open>sendfile\<close> call of lines 152-167 for the file hunk \<open>f\<close>.\<close>

definition sendfile_call :: "config \<Rightarrow> ngx_hunk_t \<Rightarrow> state \<Rightarrow> syscall" where
  "sendfile_call cfg f s =
     Sendfile (file_fd f) (c_fd (conn s)) (file_pos f)
       (fsize (coalesce (chain_in s)) +
        (if ngx_freebsd_sendfile_nbytes_bug cfg = 0 then 0 else hsize (coalesce (chain_in s))))
       (header (coalesce (chain_in s))) (trailer (coalesce (chain_in s)))"

text \<open>The state when the system call of a pass has been made (line 221 not yet reached).\<close>

definition attempt_state :: "config \<Rightarrow> state \<Rightarrow> state" where
  "attempt_state cfg s =
     (case file_hunk (coalesce (chain_in s)) of
        None \<Rightarrow> s\<lparr>calls := calls s @ [Writev (c_fd (conn s)) (header (coalesce (chain_in s)))]\<rparr>
      | Some f \<Rightarrow>
          s\<lparr>conn := (if nopush_now cfg s then (conn s)\<lparr>tcp_nopush := True\<rparr> else conn s),
            calls := (if nopush_now cfg s then calls s @ [Tcp_nopush (c_fd (conn s))]
                      else calls s) @ [sendfile_call cfg f s]\<rparr>)"

text \<open>The state in which the function enters the loop.\<close>

definition initial_state :: "ngx_connection_t \<Rightarrow> ngx_hunk_t list \<Rightarrow> state" where
  "initial_state c chain = \<lparr>conn = c, passed = [], chain_in = chain, calls = []\<rparr>"

text \<open>The settings of a FreeBSD whose \<open>sendfile\<close> has the \<open>nbytes\<close> bug.\<close>

definition bug_config :: config where
  "bug_config = \<lparr>ngx_freebsd_use_tcp_nopush = 1, ngx_freebsd_sendfile_nbytes_bug = 1\<rparr>"

text \<open>What a call may do to a hunk: the type bits stay, and a special hunk stays as it
  is.\<close>

definition kept :: "ngx_hunk_t \<Rightarrow> ngx_hunk_t \<Rightarrow> bool" where
  "kept x y = (in_memory x = in_memory y \<and> in_file x = in_file y \<and> (ngx_hunk_special y \<longrightarrow> x = y))"

text \<open>\<open>follows s' s\<close>: the chain of \<open>s'\<close> is the chain of \<open>s\<close>, link by link and with the
  hunks kept; \<open>in\<close> has only moved forward, and the links after it are untouched.\<close>

definition follows :: "state \<Rightarrow> state \<Rightarrow> bool" where
  "follows s' s =
     (list_all2 kept (passed s' @ chain_in s') (passed s @ chain_in s) \<and>
      (\<exists>d. passed s' = passed s @ d \<and> tl (chain_in s') = drop (Suc (length d)) (chain_in s)))"

lemmas example_defs =
  memory_span_def file_span_def special_span_def ready_conn_def plain_config_def
  reply_ok_def reply_err_def

lemmas macro_defs = ngx_hunk_special_def ngx_hunk_in_memory_only_def ngx_hunk_size_def

section \<open>The completion pass\<close>

lemma sent_before_simps [simp]:
  "sent_before [] = 0"
  "sent_before (h # xs) = (if ngx_hunk_special h then 0 else ngx_hunk_size h) + sent_before xs"
  by (simp_all add: sent_before_def)

lemma completion_length:
  "completion n chain = (d, r) \<Longrightarrow> length d + length r = length chain"
  by (induction chain arbitrary: n d r) (auto split: if_splits prod.splits)

lemma completion_passed:
  "completion n chain = (d, r) \<Longrightarrow> i < length d \<Longrightarrow>
     d ! i = (if ngx_hunk_special (chain ! i) then chain ! i else consume (chain ! i))"
proof (induction chain arbitrary: n d r i)
  case Nil
  then show ?case by simp
next
  case (Cons h ce)
  show ?case
  proof (cases "ngx_hunk_special h")
    case True
    with Cons.prems obtain d' where c: "completion n ce = (d', r)" and d: "d = h # d'"
      by (auto split: prod.splits)
    from Cons.IH [OF c] Cons.prems(2) d True show ?thesis
      by (cases i) simp_all
  next
    case False
    with Cons.prems obtain d' where c: "completion (n - ngx_hunk_size h) ce = (d', r)"
      and d: "d = consume h # d'"
      by (auto split: prod.splits if_splits)
    from Cons.IH [OF c] Cons.prems(2) d False show ?thesis
      by (cases i) simp_all
  qed
qed

lemma completion_running:
  "completion n chain = (d, r) \<Longrightarrow> i < length d \<Longrightarrow> \<not> ngx_hunk_special (chain ! i) \<Longrightarrow>
     n - sent_before (take i chain) \<noteq> 0 \<and>
     ngx_hunk_size (chain ! i) \<le> n - sent_before (take i chain)"
proof (induction chain arbitrary: n d r i)
  case Nil
  then show ?case by simp
next
  case (Cons h ce)
  show ?case
  proof (cases i)
    case 0
    with Cons.prems show ?thesis by (auto split: if_splits prod.splits)
  next
    case (Suc j)
    show ?thesis
    proof (cases "ngx_hunk_special h")
      case True
      with Cons.prems obtain d' where c: "completion n ce = (d', r)" and d: "d = h # d'"
        by (auto split: prod.splits)
      from Cons.IH [OF c, of j] Cons.prems d Suc True show ?thesis by simp
    next
      case False
      with Cons.prems Suc obtain d' where c: "completion (n - ngx_hunk_size h) ce = (d', r)"
        and d: "d = consume h # d'"
        by (auto split: prod.splits if_splits)
      from Cons.IH [OF c, of j] Cons.prems d Suc False show ?thesis
        by (simp add: algebra_simps)
    qed
  qed
qed

lemma completion_head:
  "completion n chain = (d, r) \<Longrightarrow> r \<noteq> [] \<Longrightarrow>
     \<not> ngx_hunk_special (chain ! length d) \<and>
     (let k = n - sent_before (take (length d) chain) in
        if k = 0 then r = drop (length d) chain
        else k < ngx_hunk_size (chain ! length d) \<and>
             r = advance k (chain ! length d) # drop (Suc (length d)) chain)"
proof (induction chain arbitrary: n d r)
  case Nil
  then show ?case by simp
next
  case (Cons h ce)
  show ?case
  proof (cases "ngx_hunk_special h")
    case True
    with Cons.prems obtain d' where c: "completion n ce = (d', r)" and d: "d = h # d'"
      by (auto split: prod.splits)
    from Cons.IH [OF c] Cons.prems d True show ?thesis by (simp add: Let_def)
  next
    case False
    show ?thesis
    proof (cases "n \<noteq> 0 \<and> ngx_hunk_size h \<le> n")
      case True
      with Cons.prems False obtain d' where c: "completion (n - ngx_hunk_size h) ce = (d', r)"
        and d: "d = consume h # d'"
        by (auto split: prod.splits)
      from Cons.IH [OF c] Cons.prems(2) d False show ?thesis
        by (simp add: Let_def diff_diff_eq)
    next
      case stop: False
      with Cons.prems False
      have "d = [] \<and>
            (n = 0 \<and> r = h # ce \<or> n \<noteq> 0 \<and> n < ngx_hunk_size h \<and> r = advance n h # ce)"
        by (auto split: if_splits)
      with False show ?thesis by (auto simp: Let_def)
    qed
  qed
qed

lemma consume_cursor:
  "(in_memory h \<longrightarrow> h_pos (consume h) = h_last h) \<and>
   (in_file h \<longrightarrow> file_pos (consume h) = file_last h)"
  by (simp add: consume_def Let_def)

section \<open>A connection that is not ready\<close>

text \<open>
  Claim C8. On a connection whose write-ready flag is false the function returns the input
  chain at once: the result does not depend on the environment's replies, no system call
  is made, no hunk is touched, and the connection (its sent counter, its \<open>tcp_nopush\<close> flag
  and its write-ready flag) is as it was.
\<close>

theorem not_ready_unchanged:
  assumes "\<not> write_ready c"
  shows "ngx_freebsd_sendfile_chain cfg rs c chain =
           Some (Chain chain, \<lparr>conn = c, passed = [], chain_in = chain, calls = []\<rparr>)"
  using assms by (simp add: ngx_freebsd_sendfile_chain_def)

theorem not_ready_unchanged_witness:
  "\<not> write_ready (ready_conn\<lparr>write_ready := False\<rparr>) \<and>
   ngx_freebsd_sendfile_chain plain_config [] (ready_conn\<lparr>write_ready := False\<rparr>)
     [memory_span 100 103, file_span 3 0 100] =
   Some (Chain [memory_span 100 103, file_span 3 0 100],
         \<lparr>conn = ready_conn\<lparr>write_ready := False\<rparr>, passed = [],
          chain_in = [memory_span 100 103, file_span 3 0 100], calls = []\<rparr>)"
proof -
  have h: "\<not> write_ready (ready_conn\<lparr>write_ready := False\<rparr>)" by simp
  from not_ready_unchanged [OF h] h show ?thesis by simp
qed

section \<open>Coalescing memory spans\<close>

lemma scanned_simps [simp]:
  "scanned [] = []"
  "ngx_hunk_special h \<Longrightarrow> scanned (h # ce) = scanned ce"
  "\<not> ngx_hunk_special h \<Longrightarrow> ngx_hunk_in_memory_only h \<Longrightarrow> scanned (h # ce) = h # scanned ce"
  "\<not> ngx_hunk_special h \<Longrightarrow> \<not> ngx_hunk_in_memory_only h \<Longrightarrow> scanned (h # ce) = []"
  by (simp_all add: scanned_def)

lemma unscanned_simps [simp]:
  "unscanned [] = []"
  "ngx_hunk_special h \<Longrightarrow> unscanned (h # ce) = unscanned ce"
  "ngx_hunk_in_memory_only h \<Longrightarrow> unscanned (h # ce) = unscanned ce"
  "\<not> ngx_hunk_special h \<Longrightarrow> \<not> ngx_hunk_in_memory_only h \<Longrightarrow> unscanned (h # ce) = h # ce"
  by (simp_all add: unscanned_def)

lemma iov_grow_snoc: "iov_grow n (V @ [v]) = V @ [v\<lparr>iov_len := iov_len v + n\<rparr>]"
proof (induction V)
  case Nil
  show ?case by simp
next
  case (Cons x V)
  obtain y ys where "V @ [v] = y # ys" by (cases "V @ [v]") auto
  with Cons show ?case by (metis append_Cons iov_grow.simps(3))
qed

lemma run_iov_single: "run_iov [h] = iov_of h"
  by (simp add: run_iov_def iov_of_def)

lemma run_iov_snoc:
  "cur \<noteq> [] \<Longrightarrow>
     run_iov (cur @ [h]) = (run_iov cur)\<lparr>iov_len := iov_len (run_iov cur) + (h_last h - h_pos h)\<rparr>"
  by (simp add: run_iov_def)

lemma header_scan_runs:
  "cur \<noteq> [] \<Longrightarrow>
   header_scan (Some (h_last (last cur))) (V @ [run_iov cur]) H chain =
     (V @ map run_iov (runs_from cur (scanned chain)),
      H + sum_list (map (\<lambda>h. h_last h - h_pos h) (scanned chain)),
      unscanned chain)"
proof (induction chain arbitrary: cur V H)
  case Nil
  then show ?case by simp
next
  case (Cons h ce)
  show ?case
  proof (cases "ngx_hunk_special h")
    case True
    with Cons show ?thesis by simp
  next
    case ns: False
    show ?thesis
    proof (cases "ngx_hunk_in_memory_only h")
      case False
      with ns show ?thesis by simp
    next
      case True
      show ?thesis
      proof (cases "h_last (last cur) = h_pos h")
        case adj: True
        have "cur @ [h] \<noteq> []" by simp
        from Cons.IH [OF this, of V "H + (h_last h - h_pos h)"] ns True adj Cons.prems
        show ?thesis by (simp add: iov_grow_snoc run_iov_snoc)
      next
        case gap: False
        have "[h] \<noteq> []" by simp
        from Cons.IH [OF this, of "V @ [run_iov cur]" "H + (h_last h - h_pos h)"] ns True gap
        show ?thesis by (simp add: run_iov_single)
      qed
    qed
  qed
qed

lemma header_scan_None:
  "header_scan None V H chain =
     (V @ map run_iov (adjacent_runs (scanned chain)),
      H + sum_list (map (\<lambda>h. h_last h - h_pos h) (scanned chain)),
      unscanned chain)"
proof (induction chain)
  case Nil
  show ?case by simp
next
  case (Cons h ce)
  have "[h] \<noteq> []" by simp
  from header_scan_runs [OF this, of V "H + (h_last h - h_pos h)" ce] Cons
  show ?case by (simp add: run_iov_single)
qed

lemma trailer_scan_runs:
  "cur \<noteq> [] \<Longrightarrow>
   trailer_scan (Some (h_last (last cur))) (V @ [run_iov cur]) chain =
     (V @ map run_iov (runs_from cur (scanned chain)), unscanned chain)"
proof (induction chain arbitrary: cur V)
  case Nil
  then show ?case by simp
next
  case (Cons h ce)
  show ?case
  proof (cases "ngx_hunk_special h")
    case True
    with Cons show ?thesis by simp
  next
    case ns: False
    show ?thesis
    proof (cases "ngx_hunk_in_memory_only h")
      case False
      with ns show ?thesis by simp
    next
      case True
      show ?thesis
      proof (cases "h_last (last cur) = h_pos h")
        case adj: True
        have "cur @ [h] \<noteq> []" by simp
        from Cons.IH [OF this, of V] ns True adj Cons.prems
        show ?thesis by (simp add: iov_grow_snoc run_iov_snoc)
      next
        case gap: False
        have "[h] \<noteq> []" by simp
        from Cons.IH [OF this, of "V @ [run_iov cur]"] ns True gap
        show ?thesis by (simp add: run_iov_single)
      qed
    qed
  qed
qed

lemma trailer_scan_None:
  "trailer_scan None V chain =
     (V @ map run_iov (adjacent_runs (scanned chain)), unscanned chain)"
proof (induction chain)
  case Nil
  show ?case by simp
next
  case (Cons h ce)
  have "[h] \<noteq> []" by simp
  from trailer_scan_runs [OF this, of V ce] Cons
  show ?case by (simp add: run_iov_single)
qed

lemma concat_runs_from: "concat (runs_from cur xs) = cur @ xs"
  by (induction xs arbitrary: cur) simp_all

lemma concat_adjacent_runs: "concat (adjacent_runs xs) = xs"
  by (cases xs) (simp_all add: concat_runs_from)

lemma runs_from_hd: "\<exists>ys gs. runs_from cur xs = (cur @ ys) # gs"
  by (induction xs arbitrary: cur) (auto, metis append.assoc)

lemma runs_from_chained:
  "cur \<noteq> [] \<Longrightarrow> successively (\<lambda>a b. h_last a = h_pos b) cur \<Longrightarrow> g \<in> set (runs_from cur xs) \<Longrightarrow>
     g \<noteq> [] \<and> successively (\<lambda>a b. h_last a = h_pos b) g"
proof (induction xs arbitrary: cur)
  case Nil
  then show ?case by simp
next
  case (Cons b xs)
  show ?case
  proof (cases "h_last (last cur) = h_pos b")
    case True
    with Cons.prems have "successively (\<lambda>a b. h_last a = h_pos b) (cur @ [b])"
      by (simp add: successively_append_iff)
    with Cons.IH [of "cur @ [b]"] Cons.prems True show ?thesis by simp
  next
    case False
    with Cons.IH [of "[b]"] Cons.prems show ?thesis by auto
  qed
qed

lemma runs_from_gaps:
  "cur \<noteq> [] \<Longrightarrow> successively (\<lambda>g g'. h_last (last g) \<noteq> h_pos (hd g')) (runs_from cur xs)"
proof (induction xs arbitrary: cur)
  case Nil
  then show ?case by simp
next
  case (Cons b xs)
  show ?case
  proof (cases "h_last (last cur) = h_pos b")
    case True
    with Cons.IH [of "cur @ [b]"] show ?thesis by simp
  next
    case False
    obtain ys gs where r: "runs_from [b] xs = ([b] @ ys) # gs"
      using runs_from_hd by blast
    with Cons.IH [of "[b]"] False show ?thesis by simp
  qed
qed

text \<open>
  Claim C2. Both memory scans, started on a chain, produce one vector entry for each run of
  the spans they collect, in chain order, where the runs are such that two consecutive
  spans are in the same run exactly when the first one's end address is the second one's
  start address: the runs concatenated are the collected spans, inside a run every span
  starts where the one before ends, and a run never starts where the run before ends.
\<close>

theorem memory_coalescing:
  "header_scan None [] 0 chain =
     (map run_iov (adjacent_runs (scanned chain)),
      sum_list (map (\<lambda>h. h_last h - h_pos h) (scanned chain)), unscanned chain) \<and>
   trailer_scan None [] chain = (map run_iov (adjacent_runs (scanned chain)), unscanned chain) \<and>
   concat (adjacent_runs (scanned chain)) = scanned chain \<and>
   (\<forall>g\<in>set (adjacent_runs (scanned chain)).
      g \<noteq> [] \<and> successively (\<lambda>a b. h_last a = h_pos b) g) \<and>
   successively (\<lambda>g g'. h_last (last g) \<noteq> h_pos (hd g')) (adjacent_runs (scanned chain))"
proof (intro conjI ballI)
  show "header_scan None [] 0 chain =
     (map run_iov (adjacent_runs (scanned chain)),
      sum_list (map (\<lambda>h. h_last h - h_pos h) (scanned chain)), unscanned chain)"
    using header_scan_None [of "[]" 0 chain] by simp
  show "trailer_scan None [] chain = (map run_iov (adjacent_runs (scanned chain)), unscanned chain)"
    using trailer_scan_None [of "[]" chain] by simp
  show "concat (adjacent_runs (scanned chain)) = scanned chain"
    by (rule concat_adjacent_runs)
  show "successively (\<lambda>g g'. h_last (last g) \<noteq> h_pos (hd g')) (adjacent_runs (scanned chain))"
    by (cases "scanned chain") (simp_all add: runs_from_gaps)
next
  fix g assume g: "g \<in> set (adjacent_runs (scanned chain))"
  then show "g \<noteq> []"
    by (cases "scanned chain") (auto dest: runs_from_chained [rotated 2])
  from g show "successively (\<lambda>a b. h_last a = h_pos b) g"
    by (cases "scanned chain") (auto dest: runs_from_chained [rotated 2])
qed


theorem memory_coalescing_witness:
  "header_scan None [] 0
     [memory_span 100 103, memory_span 103 106, memory_span 200 201, file_span 3 0 100] =
     ([\<lparr>iov_base = 100, iov_len = 6\<rparr>, \<lparr>iov_base = 200, iov_len = 1\<rparr>], 7,
      [file_span 3 0 100]) \<and>
   adjacent_runs
     (scanned [memory_span 100 103, memory_span 103 106, memory_span 200 201, file_span 3 0 100]) =
     [[memory_span 100 103, memory_span 103 106], [memory_span 200 201]]"
  using memory_coalescing
    [of "[memory_span 100 103, memory_span 103 106, memory_span 200 201, file_span 3 0 100]"]
  by (simp add: example_defs macro_defs scanned_def unscanned_def run_iov_def)

section \<open>Special spans between memory spans\<close>




section \<open>Coalescing file spans\<close>

lemma file_coalesce_run:
  "\<exists>n\<le>length ce.
     file_coalesce fd fprev fs ce =
       (fs + sum_list (map (\<lambda>h. file_last h - file_pos h) (take n ce)), drop n ce) \<and>
     (\<forall>i<n. in_file (ce ! i) \<and> file_fd (ce ! i) = fd \<and>
            file_pos (ce ! i) = (fprev # map file_last ce) ! i) \<and>
     (n < length ce \<and> in_file (ce ! n) \<longrightarrow>
        file_fd (ce ! n) \<noteq> fd \<or> file_pos (ce ! n) \<noteq> (fprev # map file_last ce) ! n)"
proof (induction ce arbitrary: fprev fs)
  case Nil
  show ?case by simp
next
  case (Cons h ce)
  show ?case
  proof (cases "in_file h \<and> fd = file_fd h \<and> fprev = file_pos h")
    case False
    then have "file_coalesce fd fprev fs (h # ce) = (fs, h # ce)" by auto
    with False show ?thesis by (intro exI [of _ 0]) auto
  next
    case True
    from Cons.IH [of "file_last h" "fs + (file_last h - file_pos h)"]
    obtain n where n: "n \<le> length ce"
      and eq: "file_coalesce fd (file_last h) (fs + (file_last h - file_pos h)) ce =
        (fs + (file_last h - file_pos h) + sum_list (map (\<lambda>h. file_last h - file_pos h) (take n ce)),
         drop n ce)"
      and run: "\<forall>i<n. in_file (ce ! i) \<and> file_fd (ce ! i) = fd \<and>
            file_pos (ce ! i) = (file_last h # map file_last ce) ! i"
      and stop: "n < length ce \<and> in_file (ce ! n) \<longrightarrow>
        file_fd (ce ! n) \<noteq> fd \<or> file_pos (ce ! n) \<noteq> (file_last h # map file_last ce) ! n"
      by blast
    show ?thesis
    proof (intro exI [of _ "Suc n"] conjI allI impI)
      show "Suc n \<le> length (h # ce)" using n by simp
      show "file_coalesce fd fprev fs (h # ce) =
        (fs + sum_list (map (\<lambda>h. file_last h - file_pos h) (take (Suc n) (h # ce))),
         drop (Suc n) (h # ce))"
        using True eq by (simp add: add.assoc)
    next
      fix i assume "i < Suc n"
      then show "in_file ((h # ce) ! i)" using True run by (cases i) auto
      from \<open>i < Suc n\<close> show "file_fd ((h # ce) ! i) = fd" using True run by (cases i) auto
      from \<open>i < Suc n\<close> show "file_pos ((h # ce) ! i) = (fprev # map file_last (h # ce)) ! i"
        using True run by (cases i) auto
    next
      assume "Suc n < length (h # ce) \<and> in_file ((h # ce) ! Suc n)"
      with stop show "file_fd ((h # ce) ! Suc n) \<noteq> fd \<or>
        file_pos ((h # ce) ! Suc n) \<noteq> (fprev # map file_last (h # ce)) ! Suc n"
        by simp
    qed
  qed
qed


lemma unscanned_append:
  "\<forall>h\<in>set pre. ngx_hunk_special h \<or> ngx_hunk_in_memory_only h \<Longrightarrow> in_file f \<Longrightarrow>
     unscanned (pre @ f # ce) = f # ce"
  by (simp add: unscanned_def dropWhile_append2 macro_defs)

lemma trailer_scan_file: "in_file g \<Longrightarrow> trailer_scan p V (g # xs) = (V, g # xs)"
  by (simp add: macro_defs)

lemma coalesce_file:
  assumes "\<forall>h\<in>set pre. ngx_hunk_special h \<or> ngx_hunk_in_memory_only h" and "in_file f"
    and "file_coalesce (file_fd f) (file_last f) (file_last f - file_pos f) ce = (fs, rest)"
  shows "file_hunk (coalesce (pre @ f # ce)) = Some f \<and>
         fsize (coalesce (pre @ f # ce)) = fs \<and>
         (trailer (coalesce (pre @ f # ce)), tail (coalesce (pre @ f # ce))) =
           trailer_scan None [] rest"
  using assms
  by (simp add: coalesce_def header_scan_None unscanned_append get_file_def split: prod.splits)

text \<open>
  Claim C3. When the header scan stops at a file span \<open>f\<close>, that span is the file region, and
  the \<open>n\<close> links after it are merged into the region: each of them is a file span of the same
  file descriptor that starts at the offset where the link before it ends, and the region's
  size is the sum of the sizes. The link after those, if it is a file span, has another
  descriptor or starts at another offset; it is not merged and not put into a vector: it
  is the tail, and the trailer is empty.
\<close>

theorem file_coalescing:
  assumes "\<forall>h\<in>set pre. ngx_hunk_special h \<or> ngx_hunk_in_memory_only h" and "in_file f"
  shows "\<exists>n\<le>length ce.
     file_hunk (coalesce (pre @ f # ce)) = Some f \<and>
     fsize (coalesce (pre @ f # ce)) =
       sum_list (map (\<lambda>h. file_last h - file_pos h) (f # take n ce)) \<and>
     (\<forall>i<n. in_file (ce ! i) \<and> file_fd (ce ! i) = file_fd f \<and>
            file_pos (ce ! i) = file_last ((f # ce) ! i)) \<and>
     (n < length ce \<and> in_file (ce ! n) \<longrightarrow>
        (file_fd (ce ! n) \<noteq> file_fd f \<or> file_pos (ce ! n) \<noteq> file_last ((f # ce) ! n)) \<and>
        trailer (coalesce (pre @ f # ce)) = [] \<and>
        tail (coalesce (pre @ f # ce)) = drop n ce) \<and>
     (trailer (coalesce (pre @ f # ce)), tail (coalesce (pre @ f # ce))) =
       trailer_scan None [] (drop n ce)"
proof -
  from file_coalesce_run [of ce "file_fd f" "file_last f" "file_last f - file_pos f"]
  obtain n where n: "n \<le> length ce"
    and eq: "file_coalesce (file_fd f) (file_last f) (file_last f - file_pos f) ce =
        (file_last f - file_pos f + sum_list (map (\<lambda>h. file_last h - file_pos h) (take n ce)),
         drop n ce)"
    and run: "\<forall>i<n. in_file (ce ! i) \<and> file_fd (ce ! i) = file_fd f \<and>
            file_pos (ce ! i) = (file_last f # map file_last ce) ! i"
    and stop: "n < length ce \<and> in_file (ce ! n) \<longrightarrow>
        file_fd (ce ! n) \<noteq> file_fd f \<or> file_pos (ce ! n) \<noteq> (file_last f # map file_last ce) ! n"
    by blast
  have prev: "(file_last f # map file_last ce) ! i = file_last ((f # ce) ! i)"
    if "i \<le> length ce" for i
    using that by (cases i) simp_all
  note co = coalesce_file [OF assms eq]
  show ?thesis
  proof (intro exI [of _ n] conjI allI impI)
    show "n \<le> length ce" by (rule n)
    show "file_hunk (coalesce (pre @ f # ce)) = Some f" using co by simp
    show "fsize (coalesce (pre @ f # ce)) =
       sum_list (map (\<lambda>h. file_last h - file_pos h) (f # take n ce))"
      using co by simp
    show "(trailer (coalesce (pre @ f # ce)), tail (coalesce (pre @ f # ce))) =
       trailer_scan None [] (drop n ce)"
      using co by simp
  next
    fix i assume i: "i < n"
    with n have "i \<le> length ce" by simp
    from prev [OF this] run i
    show "in_file (ce ! i)" and "file_fd (ce ! i) = file_fd f"
      and "file_pos (ce ! i) = file_last ((f # ce) ! i)"
      by simp_all
  next
    assume a: "n < length ce \<and> in_file (ce ! n)"
    with stop prev [of n]
    show "file_fd (ce ! n) \<noteq> file_fd f \<or> file_pos (ce ! n) \<noteq> file_last ((f # ce) ! n)"
      by simp
    from a have d: "drop n ce = ce ! n # drop (Suc n) ce"
      by (simp add: Cons_nth_drop_Suc)
    from a have "trailer_scan None [] (drop n ce) = ([], drop n ce)"
      by (subst d, subst trailer_scan_file) (simp_all add: d [symmetric])
    with co show "trailer (coalesce (pre @ f # ce)) = []"
      and "tail (coalesce (pre @ f # ce)) = drop n ce"
      by simp_all
  qed
qed

theorem file_coalescing_witness:
  "ngx_hunk_in_memory_only (memory_span 100 103) \<and>
   in_file (file_span 3 0 50) \<and>
   file_hunk (coalesce ([memory_span 100 103] @ file_span 3 0 50 #
      [file_span 3 50 100, file_span 3 110 120, memory_span 7 9])) = Some (file_span 3 0 50) \<and>
   fsize (coalesce ([memory_span 100 103] @ file_span 3 0 50 #
      [file_span 3 50 100, file_span 3 110 120, memory_span 7 9])) = 100 \<and>
   trailer (coalesce ([memory_span 100 103] @ file_span 3 0 50 #
      [file_span 3 50 100, file_span 3 110 120, memory_span 7 9])) = [] \<and>
   tail (coalesce ([memory_span 100 103] @ file_span 3 0 50 #
      [file_span 3 50 100, file_span 3 110 120, memory_span 7 9])) =
     [file_span 3 110 120, memory_span 7 9]"
proof -
  have p: "\<forall>h\<in>set [memory_span 100 103]. ngx_hunk_special h \<or> ngx_hunk_in_memory_only h"
    and f: "in_file (file_span 3 0 50)"
    by (simp_all add: example_defs macro_defs)
  from file_coalescing [OF p f, of "[file_span 3 50 100, file_span 3 110 120, memory_span 7 9]"]
    p f
  show ?thesis
    by (simp add: example_defs macro_defs coalesce_def get_file_def iov_of_def)
qed

section \<open>One pass through the loop\<close>

lemmas run_defs =
  iteration_def coalesce_def get_file_def complete_def finish_def Let_def
  consume_def advance_def iov_of_def initial_state_def ngx_freebsd_sendfile_chain_def

lemma iteration_writev:
  assumes "file_hunk (coalesce (chain_in s)) = None"
  shows "iteration cfg r s =
    (if alloc_failed r then Chain_error s
     else if fatal r
       then Chain_error (s\<lparr>calls := calls s @ [Writev (c_fd (conn s)) (header (coalesce (chain_in s)))]\<rparr>)
       else complete (tail (coalesce (chain_in s))) (if rc r > 0 then rc r else 0)
              (rc r = - 1 \<and> err r = NGX_EINTR) False
              (s\<lparr>calls := calls s @ [Writev (c_fd (conn s)) (header (coalesce (chain_in s)))]\<rparr>))"
  using assms by (simp add: iteration_def Let_def fatal_def)

lemma iteration_sendfile:
  assumes "file_hunk (coalesce (chain_in s)) = Some f"
  shows "iteration cfg r s =
    (if alloc_failed r then Chain_error s
     else if nopush_now cfg s \<and> nopush_failed r
       then Chain_error (s\<lparr>conn := (conn s)\<lparr>tcp_nopush := True\<rparr>,
                           calls := calls s @ [Tcp_nopush (c_fd (conn s))]\<rparr>)
     else if fatal r
       then Chain_error
              (s\<lparr>conn := (if nopush_now cfg s then (conn s)\<lparr>tcp_nopush := True\<rparr> else conn s),
                 calls := (if nopush_now cfg s then calls s @ [Tcp_nopush (c_fd (conn s))]
                           else calls s) @ [sendfile_call cfg f s]\<rparr>)
     else complete (tail (coalesce (chain_in s))) (sbytes r)
            (rc r = - 1 \<and> err r = NGX_EINTR) (rc r = - 1 \<and> err r = NGX_EAGAIN)
            (s\<lparr>conn := (if nopush_now cfg s then (conn s)\<lparr>tcp_nopush := True\<rparr> else conn s),
               calls := (if nopush_now cfg s then calls s @ [Tcp_nopush (c_fd (conn s))]
                         else calls s) @ [sendfile_call cfg f s]\<rparr>))"
  using assms by (simp add: iteration_def Let_def fatal_def nopush_now_def sendfile_call_def)

lemma attempt_state_simps [simp]:
  "chain_in (attempt_state cfg s) = chain_in s"
  "passed (attempt_state cfg s) = passed s"
  "sent (conn (attempt_state cfg s)) = sent (conn s)"
  "write_ready (conn (attempt_state cfg s)) = write_ready (conn s)"
  by (simp_all add: attempt_state_def split: option.splits)

lemma iteration_attempt:
  assumes "\<forall>e. iteration cfg r s \<noteq> Chain_error e"
  shows "iteration cfg r s =
            complete (tail (coalesce (chain_in s))) (attempt_sent r s)
              (rc r = - 1 \<and> err r = NGX_EINTR)
              (rc r = - 1 \<and> err r = NGX_EAGAIN \<and> file_hunk (coalesce (chain_in s)) \<noteq> None)
              (attempt_state cfg s)"
proof (cases "file_hunk (coalesce (chain_in s))")
  case None
  from assms have "\<not> alloc_failed r" "\<not> fatal r"
    by (simp_all add: iteration_writev [OF None] split: if_splits)
  then show ?thesis
    by (simp add: iteration_writev [OF None] attempt_sent_def attempt_state_def None)
next
  case (Some f)
  from assms have "\<not> alloc_failed r" "(nopush_now cfg s \<and> nopush_failed r) = False" "\<not> fatal r"
    by (simp_all add: iteration_sendfile [OF Some] split: if_splits)
  then show ?thesis
    by (simp only: iteration_sendfile [OF Some] attempt_sent_def attempt_state_def Some
          if_False option.case option.distinct simp_thms)
qed

lemma iteration_fatal:
  assumes "fatal r"
  shows "\<exists>s'. iteration cfg r s = Chain_error s' \<and> passed s' = passed s \<and>
           chain_in s' = chain_in s \<and> sent (conn s') = sent (conn s) \<and>
           write_ready (conn s') = write_ready (conn s)"
proof (cases "file_hunk (coalesce (chain_in s))")
  case None
  with assms show ?thesis by (simp add: iteration_writev [OF None])
next
  case (Some f)
  with assms show ?thesis by (simp add: iteration_sendfile [OF Some])
qed

lemma completion_zero:
  "completion 0 chain = (takeWhile ngx_hunk_special chain, dropWhile ngx_hunk_special chain)"
  by (induction chain) simp_all

lemma unscanned_head: "unscanned chain = h # xs \<Longrightarrow> in_file h"
proof -
  assume a: "unscanned chain = h # xs"
  then have "\<not> (ngx_hunk_special h \<or> ngx_hunk_in_memory_only h)"
    using hd_dropWhile [of "\<lambda>h. ngx_hunk_special h \<or> ngx_hunk_in_memory_only h" chain]
    by (simp add: unscanned_def)
  then show ?thesis by (auto simp: macro_defs)
qed

lemma coalesce_no_file:
  assumes "file_hunk (coalesce chain) = None"
  shows "tail (coalesce chain) = [] \<and> trailer (coalesce chain) = []"
proof (cases "unscanned chain")
  case Nil
  then show ?thesis by (simp add: coalesce_def header_scan_None get_file_def)
next
  case (Cons h xs)
  from unscanned_head [OF this] Cons assms show ?thesis
    by (simp add: coalesce_def header_scan_None get_file_def split: prod.splits)
qed

section \<open>Going round again\<close>

text \<open>
  Claim C4. After a transmission attempt that reached the completion pass: when the system
  call was interrupted (\<open>EINTR\<close>), the loop goes round again, and the call continues with
  the next pass on the updated state; when the outcome was neither \<open>EINTR\<close> nor \<open>EAGAIN\<close>,
  the loop goes round again exactly when the tail is a link and is the new head \<open>in\<close>
  (the same position of the chain); and when the call was not interrupted and the new
  head is a link other than the tail, the loop is left and the function returns the new
  head with the write-ready flag set to false.
\<close>

theorem retry_policy:
  assumes "\<forall>e. iteration cfg r s \<noteq> Chain_error e"
  shows "(rc r = - 1 \<and> err r = NGX_EINTR \<longrightarrow>
            (\<exists>s'. iteration cfg r s = Again s' \<and>
                  ngx_loop cfg (r # rs) s = ngx_loop cfg rs s')) \<and>
         (\<not> (rc r = - 1 \<and> err r = NGX_EINTR) \<and> \<not> (rc r = - 1 \<and> err r = NGX_EAGAIN) \<longrightarrow>
            ((\<exists>s'. iteration cfg r s = Again s') \<longleftrightarrow>
               tail (coalesce (chain_in s)) \<noteq> [] \<and>
               length (tail (coalesce (chain_in s))) =
                 length (chain_in (state_of (iteration cfg r s))))) \<and>
         (\<not> (rc r = - 1 \<and> err r = NGX_EINTR) \<and>
          chain_in (state_of (iteration cfg r s)) \<noteq> [] \<and>
          length (chain_in (state_of (iteration cfg r s))) \<noteq>
            length (tail (coalesce (chain_in s))) \<longrightarrow>
            (\<exists>s'. iteration cfg r s = Leave s' \<and>
                  ngx_loop cfg (r # rs) s =
                    Some (Chain (chain_in s'), s'\<lparr>conn := (conn s')\<lparr>write_ready := False\<rparr>\<rparr>)))"
proof -
  obtain d r' where c: "completion (attempt_sent r s) (chain_in s) = (d, r')"
    by (cases "completion (attempt_sent r s) (chain_in s)")
  note it = iteration_attempt [OF assms]
  show ?thesis
    unfolding it using c
    by (simp add: complete_def Let_def finish_def it)
qed

theorem retry_policy_witness:
  "(\<forall>e. iteration plain_config (reply_err NGX_EINTR 10)
          (initial_state ready_conn [file_span 3 0 50, file_span 3 60 110]) \<noteq> Chain_error e) \<and>
   ngx_loop plain_config [reply_err NGX_EINTR 10, reply_ok 40]
     (initial_state ready_conn [file_span 3 0 50, file_span 3 60 110]) =
   ngx_loop plain_config [reply_ok 40]
     \<lparr>conn = ready_conn\<lparr>tcp_nopush := True, sent := 10\<rparr>, passed = [],
      chain_in = [file_span 3 10 50, file_span 3 60 110],
      calls = [Tcp_nopush 5, Sendfile 3 5 0 50 [] []]\<rparr>"
proof -
  have h: "\<forall>e. iteration plain_config (reply_err NGX_EINTR 10)
          (initial_state ready_conn [file_span 3 0 50, file_span 3 60 110]) \<noteq> Chain_error e"
    by (simp add: run_defs example_defs macro_defs)
  have i: "iteration plain_config (reply_err NGX_EINTR 10)
          (initial_state ready_conn [file_span 3 0 50, file_span 3 60 110]) =
        Again \<lparr>conn = ready_conn\<lparr>tcp_nopush := True, sent := 10\<rparr>, passed = [],
      chain_in = [file_span 3 10 50, file_span 3 60 110],
      calls = [Tcp_nopush 5, Sendfile 3 5 0 50 [] []]\<rparr>"
    by (simp add: run_defs example_defs macro_defs)
  from retry_policy [OF h, of "[reply_ok 40]"] h i show ?thesis
    by (simp add: reply_err_def)
qed

section \<open>\<open>EAGAIN\<close>\<close>

text \<open>
  Claim C5 (as amended). When the system call of an attempt fails with \<open>EAGAIN\<close>, the loop is
  left and the function returns, whatever the later replies would be (no retry), the head
  the completion pass produced, after the completion pass has applied the bytes reported
  (\<open>c->sent\<close> has grown by them). The write-ready flag is false on return when the attempt
  was a \<open>sendfile\<close> or the returned chain is not empty. With no bytes reported, no hunk is
  changed and the returned head is the first link that is not special: the special links
  before it are passed.
\<close>

theorem would_block:
  assumes "\<forall>e. iteration cfg r s \<noteq> Chain_error e" and "rc r = - 1" and "err r = NGX_EAGAIN"
  shows "\<exists>s'. ngx_loop cfg (r # rs) s = Some (Chain (chain_in s'), s') \<and>
           ngx_loop cfg (r # rs) s = ngx_loop cfg [r] s \<and>
           chain_in s' = snd (completion (attempt_sent r s) (chain_in s)) \<and>
           passed s' = passed s @ fst (completion (attempt_sent r s) (chain_in s)) \<and>
           sent (conn s') = sent (conn s) + attempt_sent r s \<and>
           (file_hunk (coalesce (chain_in s)) \<noteq> None \<or> chain_in s' \<noteq> [] \<longrightarrow>
              \<not> write_ready (conn s')) \<and>
           (attempt_sent r s = 0 \<longrightarrow>
              chain_in s' = dropWhile ngx_hunk_special (chain_in s) \<and>
              passed s' = passed s @ takeWhile ngx_hunk_special (chain_in s))"
proof -
  obtain d r' where c: "completion (attempt_sent r s) (chain_in s) = (d, r')"
    by (cases "completion (attempt_sent r s) (chain_in s)")
  have z: "attempt_sent r s = 0 \<longrightarrow>
             r' = dropWhile ngx_hunk_special (chain_in s) \<and> d = takeWhile ngx_hunk_special (chain_in s)"
    using c by (auto simp: completion_zero)
  have t: "file_hunk (coalesce (chain_in s)) = None \<longrightarrow> tail (coalesce (chain_in s)) = []"
    using coalesce_no_file by blast
  note it = iteration_attempt [OF assms(1)]
  show ?thesis
    using c z t assms(2,3)
    by (auto simp add: complete_def Let_def finish_def it)
qed

theorem would_block_witness:
  "(\<forall>e. iteration plain_config (reply_err NGX_EAGAIN 30)
          (initial_state ready_conn [file_span 3 0 100, memory_span 7 9]) \<noteq> Chain_error e) \<and>
   rc (reply_err NGX_EAGAIN 30) = - 1 \<and> err (reply_err NGX_EAGAIN 30) = NGX_EAGAIN \<and>
   ngx_loop plain_config [reply_err NGX_EAGAIN 30, reply_ok 72]
     (initial_state ready_conn [file_span 3 0 100, memory_span 7 9]) =
     Some (Chain [file_span 3 30 100, memory_span 7 9],
           \<lparr>conn = ready_conn\<lparr>write_ready := False, tcp_nopush := True, sent := 30\<rparr>,
            passed = [], chain_in = [file_span 3 30 100, memory_span 7 9],
            calls = [Tcp_nopush 5, Sendfile 3 5 0 100 [] [\<lparr>iov_base = 7, iov_len = 2\<rparr>]]\<rparr>)"
proof -
  have h: "\<forall>e. iteration plain_config (reply_err NGX_EAGAIN 30)
          (initial_state ready_conn [file_span 3 0 100, memory_span 7 9]) \<noteq> Chain_error e"
    by (simp add: run_defs example_defs macro_defs)
  have a: "rc (reply_err NGX_EAGAIN 30) = - 1" and b: "err (reply_err NGX_EAGAIN 30) = NGX_EAGAIN"
    by (simp_all add: reply_err_def)
  have e: "ngx_loop plain_config [reply_err NGX_EAGAIN 30, reply_ok 72]
     (initial_state ready_conn [file_span 3 0 100, memory_span 7 9]) =
     Some (Chain [file_span 3 30 100, memory_span 7 9],
           \<lparr>conn = ready_conn\<lparr>write_ready := False, tcp_nopush := True, sent := 30\<rparr>,
            passed = [], chain_in = [file_span 3 30 100, memory_span 7 9],
            calls = [Tcp_nopush 5, Sendfile 3 5 0 100 [] [\<lparr>iov_base = 7, iov_len = 2\<rparr>]]\<rparr>)"
    by (simp add: run_defs example_defs macro_defs)
  show ?thesis
    using would_block [OF h a b, of "[reply_ok 72]"] h a b e by blast
qed

text \<open>The claim as worded fails: for \<open>EAGAIN\<close> with no bytes sent on a chain that begins
  with a special span the head returned is not the head given, and after an \<open>EAGAIN\<close> from
  \<open>writev\<close> on a chain of special spans only the write-ready flag is still true.\<close>

theorem would_block_counterexample:
  "ngx_freebsd_sendfile_chain plain_config [reply_err NGX_EAGAIN 0] ready_conn
     [special_span, file_span 3 0 100] =
     Some (Chain [file_span 3 0 100],
           \<lparr>conn = ready_conn\<lparr>write_ready := False, tcp_nopush := True\<rparr>,
            passed = [special_span], chain_in = [file_span 3 0 100],
            calls = [Tcp_nopush 5, Sendfile 3 5 0 100 [] []]\<rparr>) \<and>
   [file_span 3 0 100] \<noteq> [special_span, file_span 3 0 100] \<and>
   ngx_freebsd_sendfile_chain plain_config [reply_err NGX_EAGAIN 0] ready_conn [special_span] =
     Some (Chain [],
           \<lparr>conn = ready_conn, passed = [special_span], chain_in = [],
            calls = [Writev 5 []]\<rparr>) \<and>
   write_ready ready_conn"
  by (simp add: run_defs example_defs macro_defs)

section \<open>Fatal errors\<close>

text \<open>
  Claim C6 (as amended). When the system call of an attempt fails with an \<open>errno\<close> other than
  \<open>EINTR\<close> and \<open>EAGAIN\<close>, the function returns \<open>NGX_CHAIN_ERROR\<close> at once and the completion
  pass is not run for that attempt: the hunks, \<open>in\<close>, \<open>c->sent\<close> and the write-ready flag are
  as they were before the attempt, whatever byte count the system call reported.
\<close>

theorem fatal_error_aborts:
  assumes "rc r = - 1" and "err r \<noteq> NGX_EINTR" and "err r \<noteq> NGX_EAGAIN"
  shows "\<exists>s'. ngx_loop cfg (r # rs) s = Some (NGX_CHAIN_ERROR, s') \<and>
           passed s' = passed s \<and> chain_in s' = chain_in s \<and>
           sent (conn s') = sent (conn s) \<and> write_ready (conn s') = write_ready (conn s)"
proof -
  from assms have "fatal r" by (simp add: fatal_def)
  from iteration_fatal [OF this, of cfg s] show ?thesis by auto
qed

theorem fatal_error_aborts_witness:
  "rc (reply_err (Other_errno 32) 40) = - 1 \<and> err (reply_err (Other_errno 32) 40) \<noteq> NGX_EINTR \<and>
   err (reply_err (Other_errno 32) 40) \<noteq> NGX_EAGAIN \<and>
   ngx_loop plain_config [reply_err (Other_errno 32) 40]
     (initial_state ready_conn [file_span 3 0 100]) =
     Some (NGX_CHAIN_ERROR,
           \<lparr>conn = ready_conn\<lparr>tcp_nopush := True\<rparr>, passed = [],
            chain_in = [file_span 3 0 100],
            calls = [Tcp_nopush 5, Sendfile 3 5 0 100 [] []]\<rparr>)"
proof -
  have a: "rc (reply_err (Other_errno 32) 40) = - 1"
    and b: "err (reply_err (Other_errno 32) 40) \<noteq> NGX_EINTR"
    and c: "err (reply_err (Other_errno 32) 40) \<noteq> NGX_EAGAIN"
    by (simp_all add: reply_err_def)
  from fatal_error_aborts [OF a b c, of plain_config "[]"
      "initial_state ready_conn [file_span 3 0 100]"] a b c
  show ?thesis
    by (simp add: run_defs example_defs macro_defs)
qed

text \<open>The claim as worded fails: \<open>sendfile\<close> fails with \<open>EPIPE\<close> (32) after reporting 40
  bytes; the file hunk's cursor is still at 0 and no byte is counted, where the completion
  pass would have moved the cursor to 40.\<close>

theorem fatal_error_counterexample:
  "ngx_freebsd_sendfile_chain plain_config [reply_err (Other_errno 32) 40] ready_conn
     [file_span 3 0 100] =
     Some (NGX_CHAIN_ERROR,
           \<lparr>conn = ready_conn\<lparr>tcp_nopush := True\<rparr>, passed = [],
            chain_in = [file_span 3 0 100],
            calls = [Tcp_nopush 5, Sendfile 3 5 0 100 [] []]\<rparr>) \<and>
   sent ready_conn = 0 \<and>
   completion 40 [file_span 3 0 100] = ([], [file_span 3 40 100])"
  by (simp add: run_defs example_defs macro_defs)

section \<open>The length passed to \<open>sendfile\<close>\<close>

lemma sum_run_iov:
  "(\<Sum>g\<leftarrow>gs. iov_len (run_iov g)) = sum_list (map (\<lambda>h. h_last h - h_pos h) (concat gs))"
  by (induction gs) (simp_all add: run_iov_def)

lemma coalesce_hsize: "hsize (coalesce chain) = sum_list (map iov_len (header (coalesce chain)))"
  by (simp add: coalesce_def header_scan_None sum_run_iov concat_adjacent_runs comp_def
        split: prod.splits)

lemma complete_calls: "calls (state_of (complete tp n e a s)) = calls s"
  by (simp add: complete_def Let_def split: prod.splits)

text \<open>
  Claim C9 (as amended). When a file hunk is found (and the pass gets as far as the system
  call), the length passed to \<open>sendfile\<close> is the size of the file region alone when
  \<open>ngx_freebsd_sendfile_nbytes_bug\<close> is 0, and the size of the file region plus the header
  size when the flag is set. The header vectors are passed in both cases, and their
  lengths add up to the header size.
\<close>

theorem sendfile_length:
  assumes "file_hunk (coalesce (chain_in s)) = Some f" and "\<not> alloc_failed r"
    and "\<not> (nopush_now cfg s \<and> nopush_failed r)"
  shows "last (calls (state_of (iteration cfg r s))) =
           Sendfile (file_fd f) (c_fd (conn s)) (file_pos f)
             (if ngx_freebsd_sendfile_nbytes_bug cfg = 0 then fsize (coalesce (chain_in s))
              else fsize (coalesce (chain_in s)) + hsize (coalesce (chain_in s)))
             (header (coalesce (chain_in s))) (trailer (coalesce (chain_in s))) \<and>
         hsize (coalesce (chain_in s)) = sum_list (map iov_len (header (coalesce (chain_in s))))"
proof
  from assms(2,3) have n: "alloc_failed r = False" "(nopush_now cfg s \<and> nopush_failed r) = False"
    by simp_all
  show "last (calls (state_of (iteration cfg r s))) =
           Sendfile (file_fd f) (c_fd (conn s)) (file_pos f)
             (if ngx_freebsd_sendfile_nbytes_bug cfg = 0 then fsize (coalesce (chain_in s))
              else fsize (coalesce (chain_in s)) + hsize (coalesce (chain_in s)))
             (header (coalesce (chain_in s))) (trailer (coalesce (chain_in s)))"
    by (cases "fatal r")
      (simp_all only: iteration_sendfile [OF assms(1)] n if_False if_True state_of.simps
         complete_calls, simp_all add: sendfile_call_def)
  show "hsize (coalesce (chain_in s)) = sum_list (map iov_len (header (coalesce (chain_in s))))"
    by (rule coalesce_hsize)
qed

theorem sendfile_length_witness:
  "file_hunk (coalesce (chain_in (initial_state ready_conn [memory_span 100 106, file_span 3 0 100])))
     = Some (file_span 3 0 100) \<and>
   \<not> alloc_failed (reply_ok 106) \<and>
   \<not> (nopush_now bug_config (initial_state ready_conn [memory_span 100 106, file_span 3 0 100]) \<and>
      nopush_failed (reply_ok 106)) \<and>
   last (calls (state_of (iteration bug_config (reply_ok 106)
     (initial_state ready_conn [memory_span 100 106, file_span 3 0 100])))) =
     Sendfile 3 5 0 106 [\<lparr>iov_base = 100, iov_len = 6\<rparr>] []"
proof -
  have f: "file_hunk (coalesce (chain_in (initial_state ready_conn
      [memory_span 100 106, file_span 3 0 100]))) = Some (file_span 3 0 100)"
    by (simp add: run_defs example_defs macro_defs)
  have a: "\<not> alloc_failed (reply_ok 106)" by (simp add: reply_ok_def)
  have n: "\<not> (nopush_now bug_config (initial_state ready_conn
      [memory_span 100 106, file_span 3 0 100]) \<and> nopush_failed (reply_ok 106))"
    by (simp add: reply_ok_def)
  from sendfile_length [OF f a n] f a n show ?thesis
    by (simp add: run_defs example_defs macro_defs bug_config_def)
qed

text \<open>The claim as worded fails: it is with the \<open>nbytes\<close> bug flag set that the header's
  6 bytes are counted in the length (106), and with the flag at 0 that they are not (100).\<close>

theorem sendfile_length_counterexample:
  "map_option (\<lambda>p. calls (snd p))
     (ngx_freebsd_sendfile_chain bug_config [reply_ok 106] ready_conn
        [memory_span 100 106, file_span 3 0 100]) =
     Some [Tcp_nopush 5, Sendfile 3 5 0 106 [\<lparr>iov_base = 100, iov_len = 6\<rparr>] []] \<and>
   ngx_freebsd_sendfile_nbytes_bug bug_config = 1 \<and>
   map_option (\<lambda>p. calls (snd p))
     (ngx_freebsd_sendfile_chain plain_config [reply_ok 106] ready_conn
        [memory_span 100 106, file_span 3 0 100]) =
     Some [Tcp_nopush 5, Sendfile 3 5 0 100 [\<lparr>iov_base = 100, iov_len = 6\<rparr>] []] \<and>
   ngx_freebsd_sendfile_nbytes_bug plain_config = 0"
  by (simp add: run_defs example_defs macro_defs bug_config_def)

section \<open>Special spans\<close>

lemma kept_refl [simp]: "kept x x"
  by (simp add: kept_def)

lemma kept_trans: "kept x y \<Longrightarrow> kept y z \<Longrightarrow> kept x z"
  by (auto simp: kept_def macro_defs)

lemma kept_consume [simp]: "\<not> ngx_hunk_special h \<Longrightarrow> kept (consume h) h"
  by (simp add: kept_def consume_def Let_def)

lemma kept_advance [simp]: "\<not> ngx_hunk_special h \<Longrightarrow> kept (advance n h) h"
  by (simp add: kept_def advance_def Let_def)

lemma list_all2_kept_refl [simp]: "list_all2 kept xs xs"
  by (simp add: list_all2_refl)

lemma completion_kept: "completion n chain = (d, r) \<Longrightarrow> list_all2 kept (d @ r) chain"
  by (induction chain arbitrary: n d r) (auto split: if_splits prod.splits)

lemma completion_tl: "completion n chain = (d, r) \<Longrightarrow> tl r = drop (Suc (length d)) chain"
  by (induction chain arbitrary: n d r) (auto split: if_splits prod.splits)

lemma follows_refl [simp]: "follows s s"
  by (simp add: follows_def drop_Suc)

lemma follows_trans:
  assumes "follows s'' s'" and "follows s' s"
  shows "follows s'' s"
proof -
  from assms obtain d1 d2 where
    p1: "passed s' = passed s @ d1" and t1: "tl (chain_in s') = drop (Suc (length d1)) (chain_in s)"
    and p2: "passed s'' = passed s' @ d2"
    and t2: "tl (chain_in s'') = drop (Suc (length d2)) (chain_in s')"
    by (auto simp: follows_def)
  have "tl (chain_in s'') = drop (length d2) (tl (chain_in s'))"
    using t2 by (simp add: drop_Suc)
  also have "\<dots> = drop (Suc (length (d1 @ d2))) (chain_in s)"
    using t1 by (simp add: add.commute)
  finally have t: "tl (chain_in s'') = drop (Suc (length (d1 @ d2))) (chain_in s)" .
  have p: "passed s'' = passed s @ (d1 @ d2)" using p1 p2 by simp
  have "list_all2 kept (passed s'' @ chain_in s'') (passed s @ chain_in s)"
    using assms by (auto simp: follows_def intro: list_all2_trans [OF kept_trans])
  with p t show ?thesis unfolding follows_def by blast
qed

lemma follows_same:
  "passed s2 = passed s \<Longrightarrow> chain_in s2 = chain_in s \<Longrightarrow> follows s' s2 \<Longrightarrow> follows s' s"
  by (simp add: follows_def)

lemma complete_follows: "follows (state_of (complete tp n e a s)) s"
proof -
  obtain d r where c: "completion n (chain_in s) = (d, r)"
    by (cases "completion n (chain_in s)")
  from completion_kept [OF c] have "list_all2 kept (passed s @ d @ r) (passed s @ chain_in s)"
    by (simp add: list_all2_appendI)
  with completion_tl [OF c] c show ?thesis
    by (simp add: complete_def Let_def follows_def)
qed

lemma follows_unchanged:
  "passed e = passed s \<Longrightarrow> chain_in e = chain_in s \<Longrightarrow> follows e s"
  by (simp add: follows_def drop_Suc)

lemma complete_follows_same:
  "passed s2 = passed s \<Longrightarrow> chain_in s2 = chain_in s \<Longrightarrow>
     follows (state_of (complete tp n e a s2)) s"
  by (rule follows_same [OF _ _ complete_follows])

lemma iteration_follows: "follows (state_of (iteration cfg r s)) s"
proof (cases "file_hunk (coalesce (chain_in s))")
  case None
  show ?thesis
    unfolding iteration_writev [OF None]
    by (simp add: follows_unchanged complete_follows_same)
next
  case (Some f)
  show ?thesis
    unfolding iteration_sendfile [OF Some]
    by (simp add: follows_unchanged complete_follows_same)
qed

lemma finish_follows: "finish s = (ret, s') \<Longrightarrow> follows s' s \<and> ret = Chain (chain_in s')"
  by (auto simp: finish_def follows_def drop_Suc split: if_splits)

lemma loop_follows:
  "ngx_loop cfg rs s = Some (ret, s') \<Longrightarrow>
     follows s' s \<and> (ret = NGX_CHAIN_ERROR \<or> ret = Chain (chain_in s'))"
proof (induction rs arbitrary: s)
  case Nil
  then show ?case by simp
next
  case (Cons r rs)
  note f = iteration_follows [of cfg r s]
  show ?case
  proof (cases "iteration cfg r s")
    case (Chain_error e)
    with Cons.prems f show ?thesis by simp
  next
    case (Leave e)
    with Cons.prems have "finish e = (ret, s')" by simp
    from finish_follows [OF this] f Leave show ?thesis
      by (auto intro: follows_trans)
  next
    case (Again e)
    with Cons.prems have "ngx_loop cfg rs e = Some (ret, s')" by simp
    from Cons.IH [OF this] f Again show ?thesis
      by (auto intro: follows_trans)
  qed
qed

lemma call_follows:
  assumes "ngx_freebsd_sendfile_chain cfg rs c chain = Some (ret, s')"
  shows "list_all2 kept (passed s' @ chain_in s') chain \<and>
         tl (chain_in s') = drop (Suc (length (passed s'))) chain \<and>
         (ret = NGX_CHAIN_ERROR \<or> ret = Chain (chain_in s'))"
proof (cases "write_ready c")
  case False
  with assms show ?thesis
    by (auto simp: ngx_freebsd_sendfile_chain_def drop_Suc)
next
  case True
  with assms have "ngx_loop cfg rs (initial_state c chain) = Some (ret, s')"
    by (simp add: ngx_freebsd_sendfile_chain_def initial_state_def)
  from loop_follows [OF this] show ?thesis
    by (auto simp: follows_def initial_state_def)
qed

lemma header_scan_without:
  "ngx_hunk_special h \<Longrightarrow>
     fst (header_scan p V H (pre @ h # post)) = fst (header_scan p V H (pre @ post)) \<and>
     fst (snd (header_scan p V H (pre @ h # post))) = fst (snd (header_scan p V H (pre @ post)))"
  by (induction pre arbitrary: p V H) simp_all

lemma trailer_scan_without:
  "ngx_hunk_special h \<Longrightarrow>
     fst (trailer_scan p V (pre @ h # post)) = fst (trailer_scan p V (pre @ post))"
  by (induction pre arbitrary: p V) simp_all


text \<open>
  Claim C7 (as amended). A special span is passed over by the header scan, by the trailer
  scan and by the completion pass, which go on with the next link as if it were not there,
  also when it is the only link left. It is in no vector: the vectors and the header size a
  scan computes are those it computes for the chain without the span. The completion pass
  leaves it as it is. It does end the loop over neighbouring file hunks. After a call, the
  chain has its links in the same positions, the special span unchanged in its place, the
  links after the new head untouched, and the chain returned is the rest of the chain from
  the new head on: the chain is only cut at the front.
\<close>

theorem special_transparency:
  assumes "ngx_hunk_special h"
  shows "header_scan p V H (h # ce) = header_scan p V H ce \<and>
         trailer_scan p V (h # ce) = trailer_scan p V ce \<and>
         completion n (h # ce) = (h # fst (completion n ce), snd (completion n ce)) \<and>
         header_scan p V H [h] = (V, H, []) \<and>
         trailer_scan p V [h] = (V, []) \<and>
         completion n [h] = ([h], []) \<and>
         fst (header_scan p V H (pre @ h # post)) = fst (header_scan p V H (pre @ post)) \<and>
         fst (snd (header_scan p V H (pre @ h # post))) =
           fst (snd (header_scan p V H (pre @ post))) \<and>
         fst (trailer_scan p V (pre @ h # post)) = fst (trailer_scan p V (pre @ post)) \<and>
         file_coalesce fd fprev fs (h # ce) = (fs, h # ce) \<and>
         (\<forall>ret s'. ngx_freebsd_sendfile_chain cfg rs c (pre @ h # post) = Some (ret, s') \<longrightarrow>
            length (passed s' @ chain_in s') = length (pre @ h # post) \<and>
            (passed s' @ chain_in s') ! length pre = h \<and>
            tl (chain_in s') = drop (Suc (length (passed s'))) (pre @ h # post) \<and>
            (ret = NGX_CHAIN_ERROR \<or> ret = Chain (chain_in s')))"
proof -
  have scans: "header_scan p V H (h # ce) = header_scan p V H ce"
    "trailer_scan p V (h # ce) = trailer_scan p V ce"
    "header_scan p V H [h] = (V, H, [])" "trailer_scan p V [h] = (V, [])"
    using assms by simp_all
  have comp: "completion n (h # ce) = (h # fst (completion n ce), snd (completion n ce))"
    "completion n [h] = ([h], [])"
    using assms by (simp_all split: prod.splits)
  have fc: "file_coalesce fd fprev fs (h # ce) = (fs, h # ce)"
    using assms by (simp add: macro_defs)
  have call: "length (passed s' @ chain_in s') = length (pre @ h # post) \<and>
            (passed s' @ chain_in s') ! length pre = h \<and>
            tl (chain_in s') = drop (Suc (length (passed s'))) (pre @ h # post) \<and>
            (ret = NGX_CHAIN_ERROR \<or> ret = Chain (chain_in s'))"
    if r: "ngx_freebsd_sendfile_chain cfg rs c (pre @ h # post) = Some (ret, s')" for ret s'
  proof -
    note f = call_follows [OF r]
    then have a: "list_all2 kept (passed s' @ chain_in s') (pre @ h # post)" by blast
    then have l: "length (passed s' @ chain_in s') = length (pre @ h # post)"
      by (rule list_all2_lengthD)
    have "kept ((passed s' @ chain_in s') ! length pre) ((pre @ h # post) ! length pre)"
      by (rule list_all2_nthD2 [OF a]) simp
    with assms have "(passed s' @ chain_in s') ! length pre = h"
      by (simp add: kept_def)
    with l f show ?thesis by blast
  qed
  from scans comp fc header_scan_without [OF assms] trailer_scan_without [OF assms] call
  show ?thesis by blast
qed

theorem special_transparency_witness:
  "ngx_hunk_special special_span \<and>
   header_scan None [] 0 [special_span, memory_span 100 103] =
     ([\<lparr>iov_base = 100, iov_len = 3\<rparr>], 3, []) \<and>
   completion 3 [special_span, memory_span 100 103] =
     ([special_span, memory_span 103 103], []) \<and>
   ngx_freebsd_sendfile_chain plain_config [reply_ok 3] ready_conn
     ([memory_span 100 103] @ special_span # [file_span 3 0 100]) =
     Some (Chain [file_span 3 0 100],
           \<lparr>conn = ready_conn\<lparr>write_ready := False, tcp_nopush := True, sent := 3\<rparr>,
            passed = [memory_span 103 103, special_span],
            chain_in = [file_span 3 0 100],
            calls = [Tcp_nopush 5, Sendfile 3 5 0 100 [\<lparr>iov_base = 100, iov_len = 3\<rparr>] []]\<rparr>)"
proof -
  have h: "ngx_hunk_special special_span" by (simp add: example_defs macro_defs)
  have a: "header_scan None [] 0 [special_span, memory_span 100 103] =
     ([\<lparr>iov_base = 100, iov_len = 3\<rparr>], 3, [])"
    by (simp add: example_defs macro_defs iov_of_def)
  have b: "completion 3 [special_span, memory_span 100 103] =
     ([special_span, memory_span 103 103], [])"
    by (simp add: example_defs macro_defs consume_def)
  have c: "ngx_freebsd_sendfile_chain plain_config [reply_ok 3] ready_conn
     ([memory_span 100 103] @ special_span # [file_span 3 0 100]) =
     Some (Chain [file_span 3 0 100],
           \<lparr>conn = ready_conn\<lparr>write_ready := False, tcp_nopush := True, sent := 3\<rparr>,
            passed = [memory_span 103 103, special_span],
            chain_in = [file_span 3 0 100],
            calls = [Tcp_nopush 5, Sendfile 3 5 0 100 [\<lparr>iov_base = 100, iov_len = 3\<rparr>] []]\<rparr>)"
    by (simp add: run_defs example_defs macro_defs)
  show ?thesis
    using special_transparency [OF h, of None "[]" 0 "[memory_span 100 103]" 3
      "[memory_span 100 103]" "[file_span 3 0 100]" 3 50 50 plain_config "[reply_ok 3]" ready_conn]
      h a b c
    by blast
qed

text \<open>The claim as worded fails: a special span between two file spans that are contiguous
  in one file ends the loop over the file hunks, the second file span becomes the tail, and
  the call needs two \<open>sendfile\<close> calls where one is enough without the special span.\<close>

theorem special_transparency_counterexample:
  "ngx_hunk_special special_span \<and>
   fsize (coalesce [file_span 3 0 50, special_span, file_span 3 50 100]) = 50 \<and>
   tail (coalesce [file_span 3 0 50, special_span, file_span 3 50 100]) = [file_span 3 50 100] \<and>
   fsize (coalesce [file_span 3 0 50, file_span 3 50 100]) = 100 \<and>
   tail (coalesce [file_span 3 0 50, file_span 3 50 100]) = [] \<and>
   file_coalesce 3 50 50 [special_span, file_span 3 50 100] =
     (50, [special_span, file_span 3 50 100]) \<and>
   map_option (\<lambda>p. calls (snd p))
     (ngx_freebsd_sendfile_chain plain_config [reply_ok 50, reply_ok 50] ready_conn
        [file_span 3 0 50, special_span, file_span 3 50 100]) =
     Some [Tcp_nopush 5, Sendfile 3 5 0 50 [] [], Sendfile 3 5 50 50 [] []] \<and>
   map_option (\<lambda>p. calls (snd p))
     (ngx_freebsd_sendfile_chain plain_config [reply_ok 100] ready_conn
        [file_span 3 0 50, file_span 3 50 100]) =
     Some [Tcp_nopush 5, Sendfile 3 5 0 100 [] []]"
  by (simp add: run_defs example_defs macro_defs)

section \<open>The loop returns\<close>

text \<open>
  The tail is a link of the chain after the file hunk, so a pass that goes round again
  without an interruption starts from a shorter chain: when no system call is interrupted,
  the function returns within as many passes as the chain has links, and one more. (Only
  an endless run of \<open>EINTR\<close> keeps the loop going.)
\<close>

lemma unscanned_drop: "\<exists>k. unscanned chain = drop k chain"
  unfolding unscanned_def by (metis dropWhile_eq_drop)

lemma file_coalesce_drop: "\<exists>k. snd (file_coalesce fd fprev fs ce) = drop k ce"
  using file_coalesce_run [of ce fd fprev fs] by auto

lemma coalesce_tail_drop:
  assumes "file_hunk (coalesce chain) = Some f"
  shows "\<exists>k. tail (coalesce chain) = drop (Suc k) chain"
proof -
  obtain a where a: "unscanned chain = drop a chain" using unscanned_drop by blast
  from assms obtain h nxt where u: "unscanned chain = h # nxt" and h: "in_file h"
    by (cases "unscanned chain")
      (auto simp: coalesce_def header_scan_None get_file_def split: prod.splits if_splits)
  obtain n where n: "snd (file_coalesce (file_fd h) (file_last h) (file_last h - file_pos h) nxt)
      = drop n nxt"
    using file_coalesce_drop by blast
  obtain m where m: "unscanned (drop n nxt) = drop m (drop n nxt)"
    using unscanned_drop by blast
  from u a have nxt: "nxt = drop (Suc a) chain"
    by (metis drop_Suc list.sel(3) tl_drop)
  have "tail (coalesce chain) = unscanned (drop n nxt)"
    using u h n
    by (auto simp add: coalesce_def header_scan_None trailer_scan_None get_file_def
          split: prod.splits)
  with m nxt have "tail (coalesce chain) = drop (Suc (m + n + a)) chain"
    by (simp add: add.assoc)
  then show ?thesis by blast
qed

lemma coalesce_tail_shorter:
  assumes "tail (coalesce chain) \<noteq> []"
  shows "length (tail (coalesce chain)) < length chain"
proof (cases "file_hunk (coalesce chain)")
  case None
  with coalesce_no_file [OF None] assms show ?thesis by simp
next
  case (Some f)
  from coalesce_tail_drop [OF Some] obtain k where k: "tail (coalesce chain) = drop (Suc k) chain"
    by blast
  with assms have "Suc k < length chain" by simp
  with k show ?thesis by simp
qed

lemma again_shorter:
  assumes "iteration cfg r s = Again s'" and "\<not> (rc r = - 1 \<and> err r = NGX_EINTR)"
  shows "length (chain_in s') < length (chain_in s)"
proof -
  from assms(1) have ne: "\<forall>e. iteration cfg r s \<noteq> Chain_error e" by simp
  obtain d r' where c: "completion (attempt_sent r s) (chain_in s) = (d, r')"
    by (cases "completion (attempt_sent r s) (chain_in s)")
  from assms c have "tail (coalesce (chain_in s)) \<noteq> [] \<and>
      length (tail (coalesce (chain_in s))) = length (chain_in s')"
    unfolding iteration_attempt [OF ne]
    by (auto simp: complete_def Let_def split: if_splits)
  with coalesce_tail_shorter [of "chain_in s"] show ?thesis by simp
qed

lemma loop_returns:
  assumes "\<forall>r\<in>set rs. \<not> (rc r = - 1 \<and> err r = NGX_EINTR)"
    and "length (chain_in s) < length rs"
  shows "\<exists>res. ngx_loop cfg rs s = Some res"
  using assms
proof (induction rs arbitrary: s)
  case Nil
  then show ?case by simp
next
  case (Cons r rs)
  show ?case
  proof (cases "iteration cfg r s")
    case (Again s')
    from Cons.prems(1) have "\<not> (rc r = - 1 \<and> err r = NGX_EINTR)" by simp
    from again_shorter [OF Again this] Cons.prems(2)
    have "length (chain_in s') < length rs" by simp
    with Cons.IH [of s'] Cons.prems(1) Again show ?thesis by simp
  qed simp_all
qed

section \<open>The completion pass of an attempt\<close>

lemma advance_cursor:
  "(in_memory h \<longrightarrow> h_pos (advance k h) = h_pos h + k) \<and>
   (in_file h \<longrightarrow> file_pos (advance k h) = file_pos h + k)"
  by (simp add: advance_def Let_def)

lemma complete_state:
  assumes "completion n (chain_in s) = (d, r)"
  shows "sent (conn (state_of (complete tp n e a s))) = sent (conn s) + n \<and>
         passed (state_of (complete tp n e a s)) = passed s @ d \<and>
         chain_in (state_of (complete tp n e a s)) = r"
  using assms by (simp add: complete_def Let_def)

lemma iteration_state:
  assumes "\<forall>e. iteration cfg rp s \<noteq> Chain_error e"
    and "completion (attempt_sent rp s) (chain_in s) = (d, r)"
  shows "sent (conn (state_of (iteration cfg rp s))) = sent (conn s) + attempt_sent rp s \<and>
         passed (state_of (iteration cfg rp s)) = passed s @ d \<and>
         chain_in (state_of (iteration cfg rp s)) = r"
proof -
  have c: "completion (attempt_sent rp s) (chain_in (attempt_state cfg s)) = (d, r)"
    using assms(2) by simp
  show ?thesis
    unfolding iteration_attempt [OF assms(1)]
    using complete_state [OF c] by simp
qed

text \<open>
  Claim C1. A transmission attempt that is not fatal runs the completion pass on \<open>in\<close> with
  the byte count the attempt reported (what \<open>sendfile\<close> stored in \<open>sent\<close>, or the positive
  return value of \<open>writev\<close>): \<open>c->sent\<close> grows by that count, the links \<open>d\<close> the pass went
  past are behind the new \<open>in\<close>, and the link it stopped at is the new \<open>in\<close>. The pass
  walks the chain from its head. A special link is left as it is. A link that is not
  special is gone past when the running count (the count reported, less the sizes of the
  spans before it) is not zero and not below the span's size; the span is then consumed
  whole, its cursor set to its limit. The link the pass stops at, if there is one, is not
  special: with the running count \<open>k\<close> at zero the span is untouched; otherwise \<open>k\<close> is below
  the span's size and the span's cursor has moved by exactly \<open>k\<close>. The links after it are
  unchanged.
\<close>

theorem completion_walk:
  assumes "\<forall>e. iteration cfg rp s \<noteq> Chain_error e"
    and "completion (attempt_sent rp s) (chain_in s) = (d, r)"
  shows "sent (conn (state_of (iteration cfg rp s))) = sent (conn s) + attempt_sent rp s \<and>
    passed (state_of (iteration cfg rp s)) = passed s @ d \<and>
    chain_in (state_of (iteration cfg rp s)) = r \<and>
    length d + length r = length (chain_in s) \<and>
    (\<forall>i<length d.
       if ngx_hunk_special (chain_in s ! i) then d ! i = chain_in s ! i
       else attempt_sent rp s - sent_before (take i (chain_in s)) \<noteq> 0 \<and>
            ngx_hunk_size (chain_in s ! i) \<le> attempt_sent rp s - sent_before (take i (chain_in s)) \<and>
            d ! i = consume (chain_in s ! i) \<and>
            (in_memory (chain_in s ! i) \<longrightarrow> h_pos (d ! i) = h_last (chain_in s ! i)) \<and>
            (in_file (chain_in s ! i) \<longrightarrow> file_pos (d ! i) = file_last (chain_in s ! i))) \<and>
    (r \<noteq> [] \<longrightarrow>
       \<not> ngx_hunk_special (chain_in s ! length d) \<and>
       (let k = attempt_sent rp s - sent_before (take (length d) (chain_in s)) in
          if k = 0 then r = drop (length d) (chain_in s)
          else k < ngx_hunk_size (chain_in s ! length d) \<and>
               r = advance k (chain_in s ! length d) # drop (Suc (length d)) (chain_in s) \<and>
               (in_memory (chain_in s ! length d) \<longrightarrow>
                  h_pos (hd r) = h_pos (chain_in s ! length d) + k) \<and>
               (in_file (chain_in s ! length d) \<longrightarrow>
                  file_pos (hd r) = file_pos (chain_in s ! length d) + k)))"
proof (intro conjI allI impI)
  note st = iteration_state [OF assms]
  show "sent (conn (state_of (iteration cfg rp s))) = sent (conn s) + attempt_sent rp s"
    using st by simp
  show "passed (state_of (iteration cfg rp s)) = passed s @ d" using st by simp
  show "chain_in (state_of (iteration cfg rp s)) = r" using st by simp
  show "length d + length r = length (chain_in s)"
    using assms(2) by (rule completion_length)
next
  fix i assume i: "i < length d"
  have "d ! i = (if ngx_hunk_special (chain_in s ! i) then chain_in s ! i
                 else consume (chain_in s ! i))"
    using assms(2) i by (rule completion_passed)
  with completion_running [OF assms(2) i] consume_cursor [of "chain_in s ! i"]
  show "if ngx_hunk_special (chain_in s ! i) then d ! i = chain_in s ! i
       else attempt_sent rp s - sent_before (take i (chain_in s)) \<noteq> 0 \<and>
            ngx_hunk_size (chain_in s ! i) \<le> attempt_sent rp s - sent_before (take i (chain_in s)) \<and>
            d ! i = consume (chain_in s ! i) \<and>
            (in_memory (chain_in s ! i) \<longrightarrow> h_pos (d ! i) = h_last (chain_in s ! i)) \<and>
            (in_file (chain_in s ! i) \<longrightarrow> file_pos (d ! i) = file_last (chain_in s ! i))"
    by simp
next
  assume "r \<noteq> []"
  with completion_head [OF assms(2)]
  show "\<not> ngx_hunk_special (chain_in s ! length d)" by blast
next
  assume "r \<noteq> []"
  with completion_head [OF assms(2)]
  have "let k = attempt_sent rp s - sent_before (take (length d) (chain_in s)) in
          if k = 0 then r = drop (length d) (chain_in s)
          else k < ngx_hunk_size (chain_in s ! length d) \<and>
               r = advance k (chain_in s ! length d) # drop (Suc (length d)) (chain_in s)"
    by blast
  then show "let k = attempt_sent rp s - sent_before (take (length d) (chain_in s)) in
          if k = 0 then r = drop (length d) (chain_in s)
          else k < ngx_hunk_size (chain_in s ! length d) \<and>
               r = advance k (chain_in s ! length d) # drop (Suc (length d)) (chain_in s) \<and>
               (in_memory (chain_in s ! length d) \<longrightarrow>
                  h_pos (hd r) = h_pos (chain_in s ! length d) + k) \<and>
               (in_file (chain_in s ! length d) \<longrightarrow>
                  file_pos (hd r) = file_pos (chain_in s ! length d) + k)"
    using advance_cursor by (auto simp: Let_def)
qed

theorem completion_walk_witness:
  "(\<forall>e. iteration plain_config (reply_ok 4)
          (initial_state ready_conn [memory_span 100 103, special_span, file_span 3 0 100])
        \<noteq> Chain_error e) \<and>
   attempt_sent (reply_ok 4)
     (initial_state ready_conn [memory_span 100 103, special_span, file_span 3 0 100]) = 4 \<and>
   completion 4 [memory_span 100 103, special_span, file_span 3 0 100] =
     ([memory_span 103 103, special_span], [file_span 3 1 100]) \<and>
   passed (state_of (iteration plain_config (reply_ok 4)
     (initial_state ready_conn [memory_span 100 103, special_span, file_span 3 0 100]))) =
     [memory_span 103 103, special_span] \<and>
   chain_in (state_of (iteration plain_config (reply_ok 4)
     (initial_state ready_conn [memory_span 100 103, special_span, file_span 3 0 100]))) =
     [file_span 3 1 100] \<and>
   sent (conn (state_of (iteration plain_config (reply_ok 4)
     (initial_state ready_conn [memory_span 100 103, special_span, file_span 3 0 100])))) = 4 \<and>
   h_pos (memory_span 103 103) = h_last (memory_span 100 103) \<and>
   file_pos (file_span 3 1 100) = file_pos (file_span 3 0 100) + (4 - 3)"
proof -
  let ?s = "initial_state ready_conn [memory_span 100 103, special_span, file_span 3 0 100]"
  have h: "\<forall>e. iteration plain_config (reply_ok 4) ?s \<noteq> Chain_error e"
    by (simp add: run_defs example_defs macro_defs)
  have a: "attempt_sent (reply_ok 4) ?s = 4"
    by (simp add: attempt_sent_def run_defs example_defs macro_defs)
  have c: "completion (attempt_sent (reply_ok 4) ?s) (chain_in ?s) =
     ([memory_span 103 103, special_span], [file_span 3 1 100])"
    unfolding a by (simp add: initial_state_def example_defs macro_defs consume_def advance_def)
  have c': "completion 4 [memory_span 100 103, special_span, file_span 3 0 100] =
     ([memory_span 103 103, special_span], [file_span 3 1 100])"
    using c unfolding a by (simp add: initial_state_def)
  have e: "h_pos (memory_span 103 103) = h_last (memory_span 100 103)"
    "file_pos (file_span 3 1 100) = file_pos (file_span 3 0 100) + (4 - 3)"
    by (simp_all add: example_defs)
  from completion_walk [OF h c] have
    "passed (state_of (iteration plain_config (reply_ok 4) ?s)) =
       passed ?s @ [memory_span 103 103, special_span]"
    "chain_in (state_of (iteration plain_config (reply_ok 4) ?s)) = [file_span 3 1 100]"
    "sent (conn (state_of (iteration plain_config (reply_ok 4) ?s))) =
       sent (conn ?s) + attempt_sent (reply_ok 4) ?s"
    by blast+
  then have
    "passed (state_of (iteration plain_config (reply_ok 4) ?s)) =
       [memory_span 103 103, special_span]"
    "chain_in (state_of (iteration plain_config (reply_ok 4) ?s)) = [file_span 3 1 100]"
    "sent (conn (state_of (iteration plain_config (reply_ok 4) ?s))) = 4"
    unfolding a by (simp_all add: initial_state_def ready_conn_def)
  with h a c' e show ?thesis by blast
qed

section \<open>Adjacency across special spans\<close>








end
